theory Spec2Isabelle
  imports
    Main
    "HOL-Library.Word"
    "HOL-Library.Signed_Division"
    "HOL-Library.Multiset"
    "HOL-Library.AList"
    "HOL-Library.Char_ord"
begin

section \<open>The ingress aggregator of ingress2gateway (pkg/i2gw/aggregator.go)\<close>

text \<open>
  Go strings are byte sequences, modelled as \<^typ>\<open>string\<close> (a list of 8-bit characters).
  \<^verbatim>\<open>fmt.Sprintf\<close> with \<^verbatim>\<open>%s\<close> verbs is concatenation.
\<close>

subsection \<open>nameFromHost\<close>

definition isAlnum :: "char \<Rightarrow> bool" where
  \<comment> \<open>the character class \<^verbatim>\<open>[a-zA-Z0-9]\<close>\<close>
  "isAlnum c \<longleftrightarrow>
     (CHR ''a'' \<le> c \<and> c \<le> CHR ''z'') \<or> (CHR ''A'' \<le> c \<and> c \<le> CHR ''Z'') \<or>
     (CHR ''0'' \<le> c \<and> c \<le> CHR ''9'')"

abbreviation special :: "char \<Rightarrow> bool" where
  \<comment> \<open>the negated class \<^verbatim>\<open>[^a-zA-Z0-9]\<close>\<close>
  "special c \<equiv> \<not> isAlnum c"

text \<open>
  \<^verbatim>\<open>regexp.Compile("[^a-zA-Z0-9]+")\<close> followed by \<^verbatim>\<open>ReplaceAllString(host, "-")\<close>:
  scanning from the left, each leftmost-longest match (a maximal run of bytes outside the
  class) is replaced by one \<^verbatim>\<open>-\<close>. Every byte of a multi-byte UTF-8 sequence and every
  invalid byte lies outside the class, so the replacement on runes and on bytes agree.
\<close>

function replaceAllSpecial :: "string \<Rightarrow> string" where
  "replaceAllSpecial [] = []"
| "replaceAllSpecial (c # cs) =
     (if isAlnum c then c # replaceAllSpecial cs
      else CHR ''-'' # replaceAllSpecial (dropWhile special cs))"
  by pat_completeness auto
termination
  by (relation "measure length") (auto simp: le_imp_less_Suc length_dropWhile_le)

definition removeLeadingSpecial :: "string \<Rightarrow> string" where
  \<comment> \<open>\<^verbatim>\<open>"^[^a-zA-Z0-9]+"\<close> replaced by the empty string\<close>
  "removeLeadingSpecial s = dropWhile special s"

definition nameFromHost :: "string \<Rightarrow> string" where
  "nameFromHost host =
     (let step1 = replaceAllSpecial host;
          step2 = removeLeadingSpecial step1
      in if length host = 0 then ''all-hosts'' else step2)"


subsection \<open>The source objects (k8s.io/api/networking/v1)\<close>

text \<open>
  A Go pointer field is an \<^typ>\<open>'a option\<close> (\<open>None\<close> is \<^verbatim>\<open>nil\<close>); \<^verbatim>\<open>int32\<close> is
  \<^typ>\<open>32 word\<close>; \<^verbatim>\<open>PathType\<close> is a string type. The annotations are a
  \<^verbatim>\<open>map[string]string\<close> that is only ever indexed. Only the fields that the aggregator
  reads are kept. The object meta data of an ingress are its \<open>name\<close>, \<open>namespace\<close> and
  \<open>annotations\<close>; the HTTP section of a rule, a pointer to a struct that holds the list
  \<^verbatim>\<open>Paths\<close>, is the optional list \<open>http\<close>. Where two structs have a field of the same
  name, the fields of the later record carry a prefix (\<open>rg_\<close> for the rule group,
  \<open>ip_\<close> for the ingress path, and so on).
\<close>

type_synonym int32 = "32 word"

record ServiceBackendPort =
  portName :: string
  portNumber :: int32

record IngressServiceBackend =
  svcName :: string
  svcPort :: ServiceBackendPort

record TypedLocalObjectReference =
  apiGroup :: "string option"
  refKind :: string
  refName :: string

record IngressBackend =
  service :: "IngressServiceBackend option"
  resource :: "TypedLocalObjectReference option"

record HTTPIngressPath =
  path :: string
  pathType :: "string option"
  backend :: IngressBackend

record IngressRule =
  host :: string
  http :: "HTTPIngressPath list option"

record IngressTLS =
  tlsHosts :: "string list"
  secretName :: string

record IngressSpec =
  ingressClassName :: "string option"
  defaultBackend :: "IngressBackend option"
  tls :: "IngressTLS list"
  rules :: "IngressRule list"

record Ingress =
  name :: string
  namespace :: string
  annotations :: "string \<rightharpoonup> string"
  spec :: IngressSpec

definition annotation :: "Ingress \<Rightarrow> string \<Rightarrow> string" where
  \<comment> \<open>\<^verbatim>\<open>ingress.Annotations[k]\<close>: the zero value \<^verbatim>\<open>""\<close> for a missing key\<close>
  "annotation ingress k = (case annotations ingress k of None \<Rightarrow> [] | Some v \<Rightarrow> v)"

definition PathTypePrefix :: string where "PathTypePrefix = ''Prefix''"
definition PathTypeExact :: string where "PathTypeExact = ''Exact''"

definition AnnotationIngressClass :: string where
  \<comment> \<open>\<^verbatim>\<open>networkingv1beta1.AnnotationIngressClass\<close>\<close>
  "AnnotationIngressClass = ''kubernetes.io/ingress.class''"

subsection \<open>The produced objects (sigs.k8s.io/gateway-api/apis/v1beta1)\<close>

text \<open>
  Only the fields that the aggregator sets are kept; the type meta data (the fixed
  group-version-kinds) and the empty parents status that every route carries are constants.
  A backend reference with its object reference, a route match with its path match, and a
  route or gateway with its meta data and specification are one record each; a parent
  reference and a certificate reference are their names.
\<close>

record BackendRef =
  brGroup :: "string option"
  brKind :: "string option"
  brName :: string
  brPort :: "int32 option"
  brWeight :: "int32 option"

datatype PathMatchType = PathMatchPathPrefix | PathMatchExact

datatype HeaderMatchType = HeaderMatchExact | HeaderMatchRegularExpression

record HTTPHeaderMatch =
  hmType :: HeaderMatchType
  hmName :: string
  hmValue :: string

record HTTPRouteMatch =
  pmType :: PathMatchType
  pmValue :: string
  headers :: "HTTPHeaderMatch list"

record HTTPRouteRule =
  matches :: "HTTPRouteMatch list"
  backendRefs :: "BackendRef list"

record HTTPRoute =
  routeName :: string
  routeNamespace :: string
  parentRefs :: "string list"
  hostnames :: "string list"
  routeRules :: "HTTPRouteRule list"

record GatewayTLSConfig =
  certificateRefs :: "string list"

record Listener =
  lName :: string
  lHostname :: "string option"
  lPort :: int32
  lProtocol :: string
  lTLS :: "GatewayTLSConfig option"

record Gateway =
  gwNamespace :: string
  gwName :: string
  gatewayClassName :: string
  listeners :: "Listener list"

definition HTTPProtocolType :: string where "HTTPProtocolType = ''HTTP''"
definition HTTPSProtocolType :: string where "HTTPSProtocolType = ''HTTPS''"

subsection \<open>Errors and panics\<close>

text \<open>
  The three \<^verbatim>\<open>fmt.Errorf\<close> messages, each with the string it is formatted with:
  \<^verbatim>\<open>"Unsupported path match type: %s"\<close>, \<^verbatim>\<open>"Named ports not supported: %s"\<close> and
  \<^verbatim>\<open>"Error generating Gateway listeners for key: %s"\<close>.
\<close>

datatype error =
  UnsupportedPathType string
| UnsupportedNamedPort string
| MalformedGatewayKey string

text \<open>The run-time panics that the expressions of the file can raise.\<close>

datatype panic = NilPointerDereference | IndexOutOfRange | IntegerDivideByZero

subsection \<open>The aggregator's own types\<close>

record canary =
  enable :: bool
  headerKey :: string
  headerValue :: string
  headerRegexMatch :: bool
  weight :: int
  weightTotal :: int

record extra =
  canary :: "canary option"

record ingressRule =
  ir_rule :: IngressRule
  ir_extra :: "extra option"

record ingressRuleGroup =
  rg_namespace :: string
  rg_ingressClass :: string
  rg_host :: string
  rg_tls :: "IngressTLS list"
  rg_rules :: "ingressRule list"

record ingressDefaultBackend =
  db_name :: string
  db_namespace :: string
  db_ingressClass :: string
  db_backend :: IngressBackend

record ingressPath =
  ip_path :: HTTPIngressPath
  ip_extra :: "extra option"

text \<open>
  A Go map with string keys is an association list with distinct keys. The position of an
  entry in the list carries no meaning: a \<^verbatim>\<open>range\<close> over the map visits the entries in
  an order that the language leaves unspecified (see \<open>rangeOrder\<close> below).
\<close>

type_synonym 'v gomap = "(string \<times> 'v) list"

record ingressAggregator =
  ruleGroups :: "ingressRuleGroup gomap"
  defaultBackends :: "ingressDefaultBackend list"

definition appendAt :: "string \<Rightarrow> 'v \<Rightarrow> 'v list gomap \<Rightarrow> 'v list gomap" where
  \<comment> \<open>\<^verbatim>\<open>m[k] = append(m[k], v)\<close>; a missing key reads as the nil slice\<close>
  "appendAt k v m =
     AList.update k ((case map_of m k of None \<Rightarrow> [] | Some vs \<Rightarrow> vs) @ [v]) m"

text \<open>
  The order of a \<^verbatim>\<open>range\<close> over a map: any permutation of the entries. The permutation
  is chosen by a number, read as a mixed-radix code of the insertion positions, so that
  every order can be chosen and no choice is anything but a permutation; \<open>0\<close> visits the
  entries as they are stored.
\<close>

definition insertAt :: "nat \<Rightarrow> 'a \<Rightarrow> 'a list \<Rightarrow> 'a list" where
  "insertAt i x xs = take i xs @ x # drop i xs"

fun rangeOrder :: "nat \<Rightarrow> 'a list \<Rightarrow> 'a list" where
  "rangeOrder s [] = []"
| "rangeOrder s (x # xs) =
     insertAt (s mod Suc (length xs)) x (rangeOrder (s div Suc (length xs)) xs)"


subsection \<open>getExtra\<close>

text \<open>
  \<^verbatim>\<open>strconv.Atoi\<close> of the Go standard library, for a 64-bit \<^verbatim>\<open>int\<close>, with the error
  result dropped as \<open>getExtra\<close> drops it: an optional sign, then decimal digits. A byte
  that is no digit (or no digit at all) is a syntax error and the value is \<open>0\<close>; a value
  that leaves the range is a range error, reported as soon as the digits read so far
  overflow 64 bits, and the value is the nearest bound.
\<close>

definition isDigit :: "char \<Rightarrow> bool" where
  "isDigit c \<longleftrightarrow> CHR ''0'' \<le> c \<and> c \<le> CHR ''9''"

definition digitVal :: "char \<Rightarrow> int" where
  "digitVal c = of_char c - of_char CHR ''0''"

datatype parsed = Value int | SyntaxError | RangeError

fun parseUint :: "int \<Rightarrow> string \<Rightarrow> parsed" where
  "parseUint n [] = Value n"
| "parseUint n (c # cs) =
     (if \<not> isDigit c then SyntaxError
      else if 2 ^ 64 \<le> n * 10 + digitVal c then RangeError
      else parseUint (n * 10 + digitVal c) cs)"

definition Atoi :: "string \<Rightarrow> int" where
  "Atoi s =
     (let neg = (s \<noteq> [] \<and> hd s = CHR ''-'');
          digits = (if s \<noteq> [] \<and> (hd s = CHR ''+'' \<or> hd s = CHR ''-'') then tl s else s)
      in if digits = [] then 0
         else case parseUint 0 digits of
           SyntaxError \<Rightarrow> 0
         | RangeError \<Rightarrow> (if neg then - (2 ^ 63) else 2 ^ 63 - 1)
         | Value un \<Rightarrow>
             if \<not> neg \<and> 2 ^ 63 \<le> un then 2 ^ 63 - 1
             else if neg \<and> 2 ^ 63 < un then - (2 ^ 63)
             else if neg then - un else un)"

definition getExtra :: "Ingress \<Rightarrow> extra" where
  "getExtra ingress =
     (if annotation ingress ''nginx.ingress.kubernetes.io/canary'' = ''true'' then
        let c0 = \<lparr>enable = True, headerKey = [], headerValue = [], headerRegexMatch = False,
                  weight = 0, weightTotal = 0\<rparr>;
            cHeader = annotation ingress ''nginx.ingress.kubernetes.io/canary-by-header'';
            c1 = (if cHeader \<noteq> [] then c0\<lparr>headerKey := cHeader, headerValue := ''always''\<rparr>
                  else c0);
            cHeaderVal = annotation ingress ''nginx.ingress.kubernetes.io/canary-by-header-value'';
            c2 = (if cHeaderVal \<noteq> [] then c1\<lparr>headerValue := cHeaderVal\<rparr> else c1);
            cHeaderRegex =
              annotation ingress ''nginx.ingress.kubernetes.io/canary-by-header-pattern'';
            c3 = (if cHeaderRegex \<noteq> []
                  then c2\<lparr>headerValue := cHeaderRegex, headerRegexMatch := True\<rparr> else c2);
            cHeaderWeight = annotation ingress ''nginx.ingress.kubernetes.io/canary-weight'';
            c4 = (if cHeaderWeight \<noteq> []
                  then c3\<lparr>weight := Atoi cHeaderWeight, weightTotal := 100\<rparr> else c3);
            cHeaderWeightTotal =
              annotation ingress ''nginx.ingress.kubernetes.io/canary-weight-total'';
            c5 = (if cHeaderWeightTotal \<noteq> []
                  then c4\<lparr>weightTotal := Atoi cHeaderWeightTotal\<rparr> else c4)
        in \<lparr>canary = Some c5\<rparr>
      else \<lparr>canary = None\<rparr>)"

subsection \<open>addIngress and addIngressRule\<close>

definition ruleGroupKey :: "string \<Rightarrow> string \<Rightarrow> string \<Rightarrow> string" where
  \<comment> \<open>\<^verbatim>\<open>fmt.Sprintf("%s/%s/%s", namespace, ingressClass, rule.Host)\<close>\<close>
  "ruleGroupKey ns cls h = ns @ ''/'' @ cls @ ''/'' @ h"

definition addIngressRule ::
  "string \<Rightarrow> string \<Rightarrow> IngressRule \<Rightarrow> IngressSpec \<Rightarrow> extra option \<Rightarrow>
   ingressAggregator \<Rightarrow> ingressAggregator" where
  "addIngressRule ns cls rule iSpec e a =
     (let rgKey = ruleGroupKey ns cls (host rule);
          rg = (case map_of (ruleGroups a) rgKey of
                  Some rg \<Rightarrow> rg
                | None \<Rightarrow> \<lparr>rg_namespace = ns, rg_ingressClass = cls, rg_host = host rule,
                            rg_tls = [], rg_rules = []\<rparr>);
          rg1 = (if length (tls iSpec) > 0 then rg\<lparr>rg_tls := rg_tls rg @ tls iSpec\<rparr> else rg);
          rg2 = rg1\<lparr>rg_rules := rg_rules rg1 @ [\<lparr>ir_rule = rule, ir_extra = e\<rparr>]\<rparr>
      in a\<lparr>ruleGroups := AList.update rgKey rg2 (ruleGroups a)\<rparr>)"

fun addIngressRules ::
  "string \<Rightarrow> string \<Rightarrow> IngressRule list \<Rightarrow> IngressSpec \<Rightarrow> extra option \<Rightarrow>
   ingressAggregator \<Rightarrow> ingressAggregator" where
  \<comment> \<open>the loop over \<^verbatim>\<open>ingress.Spec.Rules\<close>\<close>
  "addIngressRules ns cls [] iSpec e a = a"
| "addIngressRules ns cls (rule # rs) iSpec e a =
     addIngressRules ns cls rs iSpec e (addIngressRule ns cls rule iSpec e a)"

definition resolveIngressClass :: "Ingress \<Rightarrow> string" where
  \<comment> \<open>the first statement of \<open>addIngress\<close>\<close>
  "resolveIngressClass ingress =
     (case ingressClassName (spec ingress) of
        Some c \<Rightarrow>
          if c \<noteq> [] then c
          else if annotations ingress AnnotationIngressClass \<noteq> None
            then annotation ingress AnnotationIngressClass
          else name ingress
      | None \<Rightarrow>
          if annotations ingress AnnotationIngressClass \<noteq> None
            then annotation ingress AnnotationIngressClass
          else name ingress)"

definition addIngress :: "Ingress \<Rightarrow> ingressAggregator \<Rightarrow> ingressAggregator" where
  "addIngress ingress a =
     (let ingressClass = resolveIngressClass ingress;
          e = getExtra ingress;
          a1 = addIngressRules (namespace ingress) ingressClass (rules (spec ingress))
                 (spec ingress) (Some e) a
      in case defaultBackend (spec ingress) of
           None \<Rightarrow> a1
         | Some b \<Rightarrow>
             a1\<lparr>defaultBackends := defaultBackends a1 @
                  [\<lparr>db_name = name ingress, db_namespace = namespace ingress,
                    db_ingressClass = ingressClass, db_backend = b\<rparr>]\<rparr>)"


subsection \<open>getPathMatchKey, toHTTPRouteMatch and toBackendRef\<close>

text \<open>
  A function that returns a pointer and an \<^verbatim>\<open>error\<close> either panics, returns the error or
  returns the value.
\<close>

datatype 'a result = Panic panic | Error error | Ok 'a

definition canaryOf :: "extra option \<Rightarrow> canary option" where
  \<comment> \<open>the canary reached through \<^verbatim>\<open>extra != nil && extra.canary != nil\<close>\<close>
  "canaryOf e = (case e of None \<Rightarrow> None | Some x \<Rightarrow> canary x)"

definition canaryHeaderKey :: "ingressPath \<Rightarrow> string" where
  \<comment> \<open>the header key when the three-part condition holds, else \<^verbatim>\<open>""\<close>\<close>
  "canaryHeaderKey ip = (case canaryOf (ip_extra ip) of None \<Rightarrow> [] | Some c \<Rightarrow> headerKey c)"

definition getPathMatchKey :: "ingressPath \<Rightarrow> string" where
  "getPathMatchKey ip =
     (let pathType = (case pathType (ip_path ip) of None \<Rightarrow> [] | Some t \<Rightarrow> t)
      in pathType @ ''/'' @ path (ip_path ip) @ ''/'' @ canaryHeaderKey ip)"

definition toHTTPRouteMatch :: "ingressPath \<Rightarrow> HTTPRouteMatch result" where
  "toHTTPRouteMatch ip =
     (case pathType (ip_path ip) of
        None \<Rightarrow> Panic NilPointerDereference
      | Some t \<Rightarrow>
          (if t \<noteq> PathTypePrefix \<and> t \<noteq> PathTypeExact then Error (UnsupportedPathType t)
           else
             (let match = \<lparr>pmType = (if t = PathTypePrefix then PathMatchPathPrefix
                                       else PathMatchExact),
                           pmValue = path (ip_path ip), headers = []\<rparr>
              in (case canaryOf (ip_extra ip) of
                    None \<Rightarrow> Ok match
                  | Some c \<Rightarrow>
                      (if headerKey c \<noteq> [] then
                         Ok (match\<lparr>headers :=
                           [\<lparr>hmType = (if headerRegexMatch c then HeaderMatchRegularExpression
                                        else HeaderMatchExact),
                             hmName = headerKey c, hmValue = headerValue c\<rparr>]\<rparr>)
                       else Ok match)))))"

definition toBackendRef :: "IngressBackend \<Rightarrow> BackendRef result" where
  "toBackendRef ib =
     (case service ib of
        Some svc \<Rightarrow>
          if portName (svcPort svc) \<noteq> [] then Error (UnsupportedNamedPort (portName (svcPort svc)))
          else Ok \<lparr>brGroup = None, brKind = None, brName = svcName svc,
                   brPort = Some (portNumber (svcPort svc)), brWeight = None\<rparr>
      | None \<Rightarrow>
          (case resource ib of
             None \<Rightarrow> Panic NilPointerDereference
           | Some r \<Rightarrow> Ok \<lparr>brGroup = apiGroup r, brKind = Some (refKind r), brName = refName r,
                            brPort = None, brWeight = None\<rparr>))"

subsection \<open>toHTTPRoute\<close>

fun addPaths ::
  "extra option \<Rightarrow> HTTPIngressPath list \<Rightarrow> ingressPath list gomap \<Rightarrow> ingressPath list gomap"
  where
  \<comment> \<open>the inner loop over \<^verbatim>\<open>ir.rule.HTTP.Paths\<close>\<close>
  "addPaths e [] m = m"
| "addPaths e (p # ps) m =
     (let ip = \<lparr>ip_path = p, ip_extra = e\<rparr>;
          pmKey = getPathMatchKey ip
      in addPaths e ps (appendAt pmKey ip m))"

fun groupPaths :: "ingressRule list \<Rightarrow> ingressPath list gomap \<Rightarrow> panic + ingressPath list gomap"
  where
  \<comment> \<open>the outer loop over \<^verbatim>\<open>rg.rules\<close>; \<^verbatim>\<open>ir.rule.HTTP.Paths\<close> dereferences \<^verbatim>\<open>HTTP\<close>\<close>
  "groupPaths [] m = Inr m"
| "groupPaths (ir # irs) m =
     (case http (ir_rule ir) of
        None \<Rightarrow> Inl NilPointerDereference
      | Some ps \<Rightarrow> groupPaths irs (addPaths (ir_extra ir) ps m))"

definition explicitWeight :: "ingressPath \<Rightarrow> int32 option" where
  \<comment> \<open>\<^verbatim>\<open>int32(path.extra.canary.weight)\<close> when the canary weight is not \<open>0\<close>\<close>
  "explicitWeight p =
     (case canaryOf (ip_extra p) of
        None \<Rightarrow> None
      | Some c \<Rightarrow> if weight c \<noteq> 0 then Some (word_of_int (weight c)) else None)"

text \<open>
  The loop over the paths of one partition. Its state: the rule's backend references,
  \<^verbatim>\<open>numWeightedBackends\<close>, \<^verbatim>\<open>totalWeightSet\<close> and the route's error list.
\<close>

fun collectBackendRefs ::
  "ingressPath list \<Rightarrow> BackendRef list \<times> int32 \<times> int32 \<times> error list \<Rightarrow>
   panic + (BackendRef list \<times> int32 \<times> int32 \<times> error list)" where
  "collectBackendRefs [] st = Inr st"
| "collectBackendRefs (p # ps) (brs, numWeightedBackends, totalWeightSet, errors) =
     (case toBackendRef (backend (ip_path p)) of
        Panic x \<Rightarrow> Inl x
      | Error err \<Rightarrow>
          collectBackendRefs ps (brs, numWeightedBackends, totalWeightSet, errors @ [err])
      | Ok backendRef \<Rightarrow>
          (case explicitWeight p of
             Some w \<Rightarrow>
               collectBackendRefs ps
                 (brs @ [backendRef\<lparr>brWeight := Some w\<rparr>], numWeightedBackends + 1,
                  totalWeightSet + w, errors)
           | None \<Rightarrow>
               collectBackendRefs ps
                 (brs @ [backendRef], numWeightedBackends, totalWeightSet, errors)))"

definition int32_quo :: "int32 \<Rightarrow> int32 \<Rightarrow> panic + int32" where
  \<comment> \<open>Go's \<^verbatim>\<open>/\<close> on \<^verbatim>\<open>int32\<close>: truncated towards zero, a panic on a zero divisor\<close>
  "int32_quo a b =
     (if b = 0 then Inl IntegerDivideByZero else Inr (word_of_int (sint a sdiv sint b)))"

definition distributeWeights ::
  "BackendRef list \<Rightarrow> int32 \<Rightarrow> int32 \<Rightarrow> panic + BackendRef list" where
  \<comment> \<open>the statement after the loop: the weight of the backends that have none\<close>
  "distributeWeights brs numWeightedBackends totalWeightSet =
     (if 0 <s numWeightedBackends \<and> numWeightedBackends <s of_nat (length brs) then
        case int32_quo (100 - totalWeightSet) (of_nat (length brs) - numWeightedBackends) of
          Inl x \<Rightarrow> Inl x
        | Inr weightToSet \<Rightarrow>
            Inr (map (\<lambda>br. if brWeight br = None then br\<lparr>brWeight := Some weightToSet\<rparr> else br)
                   brs)
      else Inr brs)"

definition buildRule ::
  "ingressPath list \<Rightarrow> error list \<Rightarrow> panic + (HTTPRouteRule option \<times> error list)" where
  \<comment> \<open>the body of the loop over the partitions: the rule of one partition (none when the
      match is in error, which is the \<^verbatim>\<open>continue\<close>) and the route's error list\<close>
  "buildRule paths errors =
     (case paths of
        [] \<Rightarrow> Inl IndexOutOfRange
      | p0 # _ \<Rightarrow>
          (case toHTTPRouteMatch p0 of
             Panic x \<Rightarrow> Inl x
           | Error err \<Rightarrow> Inr (None, errors @ [err])
           | Ok match \<Rightarrow>
               (case collectBackendRefs paths ([], 0, 0, errors) of
                  Inl x \<Rightarrow> Inl x
                | Inr (brs, numWeightedBackends, totalWeightSet, errors1) \<Rightarrow>
                    (case distributeWeights brs numWeightedBackends totalWeightSet of
                       Inl x \<Rightarrow> Inl x
                     | Inr brs1 \<Rightarrow>
                         Inr (Some \<lparr>matches = [match], backendRefs = brs1\<rparr>, errors1)))))"

fun buildRules ::
  "(string \<times> ingressPath list) list \<Rightarrow> HTTPRouteRule list \<times> error list \<Rightarrow>
   panic + (HTTPRouteRule list \<times> error list)" where
  \<comment> \<open>the loop over the partitions, in the order in which the \<^verbatim>\<open>range\<close> visits them\<close>
  "buildRules [] st = Inr st"
| "buildRules ((pmKey, paths) # rest) (rs, errors) =
     (case buildRule paths errors of
        Inl x \<Rightarrow> Inl x
      | Inr (None, errors1) \<Rightarrow> buildRules rest (rs, errors1)
      | Inr (Some hrRule, errors1) \<Rightarrow> buildRules rest (rs @ [hrRule], errors1))"

definition toHTTPRoute :: "nat \<Rightarrow> ingressRuleGroup \<Rightarrow> panic + (HTTPRoute \<times> error list)" where
  \<comment> \<open>the first argument chooses the order of the \<^verbatim>\<open>range\<close> over \<^verbatim>\<open>pathsByMatchGroup\<close>\<close>
  "toHTTPRoute po rg =
     (case groupPaths (rg_rules rg) [] of
        Inl x \<Rightarrow> Inl x
      | Inr pathsByMatchGroup \<Rightarrow>
          (let httpRoute =
                 \<lparr>routeName = nameFromHost (rg_host rg), routeNamespace = rg_namespace rg,
                  parentRefs = (if rg_ingressClass rg \<noteq> [] then [rg_ingressClass rg] else []),
                  hostnames = (if rg_host rg \<noteq> [] then [rg_host rg] else []),
                  routeRules = []\<rparr>
           in (case buildRules (rangeOrder po pathsByMatchGroup) ([], []) of
                 Inl x \<Rightarrow> Inl x
               | Inr (rs, errors) \<Rightarrow> Inr (httpRoute\<lparr>routeRules := rs\<rparr>, errors))))"

subsection \<open>toHTTPRoutesAndGateways\<close>

text \<open>
  The orders of the \<^verbatim>\<open>range\<close> loops over maps that one call runs through: over
  \<^verbatim>\<open>a.ruleGroups\<close>, over \<^verbatim>\<open>pathsByMatchGroup\<close> inside \<open>toHTTPRoute\<close> (one loop for
  each rule group, named by the group's key), over \<^verbatim>\<open>listenersByNamespacedGateway\<close> and
  over \<^verbatim>\<open>gatewaysByKey\<close>.
\<close>

record iteration =
  groupsOrder :: nat
  pathsOrder :: "string \<Rightarrow> nat"
  listenersOrder :: nat
  gatewaysOrder :: nat

definition gatewayKey :: "ingressRuleGroup \<Rightarrow> string" where
  \<comment> \<open>\<^verbatim>\<open>fmt.Sprintf("%s/%s", rg.namespace, rg.ingressClass)\<close>\<close>
  "gatewayKey rg = rg_namespace rg @ ''/'' @ rg_ingressClass rg"

definition groupListener :: "ingressRuleGroup \<Rightarrow> Listener" where
  \<comment> \<open>the listener that the first loop derives from a rule group\<close>
  "groupListener rg =
     (let listener = \<lparr>lName = [], lHostname = None, lPort = 0, lProtocol = [], lTLS = None\<rparr>;
          listener1 =
            (if rg_host rg \<noteq> [] then listener\<lparr>lHostname := Some (rg_host rg)\<rparr>
             else case rg_tls rg of
                    [t] \<Rightarrow> (case tlsHosts t of
                              [h] \<Rightarrow> listener\<lparr>lHostname := Some h\<rparr>
                            | _ \<Rightarrow> listener)
                  | _ \<Rightarrow> listener)
      in if length (rg_tls rg) > 0
         then listener1\<lparr>lTLS := Some \<lparr>certificateRefs = map secretName (rg_tls rg)\<rparr>\<rparr>
         else listener1)"

text \<open>
  The loop over the rule groups. \<^verbatim>\<open>httpRoute, errors := rg.toHTTPRoute()\<close> declares a new
  variable \<^verbatim>\<open>errors\<close> in the loop body, so \<^verbatim>\<open>errors = append(errors, errors...)\<close> assigns
  that inner variable, which ends with the iteration; the function's own \<^verbatim>\<open>errors\<close> is
  not touched. The state is \<^verbatim>\<open>listenersByNamespacedGateway\<close> and \<^verbatim>\<open>httpRoutes\<close>.
\<close>

fun ruleGroupsLoop ::
  "(string \<Rightarrow> nat) \<Rightarrow> (string \<times> ingressRuleGroup) list \<Rightarrow>
   Listener list gomap \<times> HTTPRoute list \<Rightarrow> panic + (Listener list gomap \<times> HTTPRoute list)"
  where
  "ruleGroupsLoop po [] st = Inr st"
| "ruleGroupsLoop po ((rgKey, rg) # rest) (listenersByNamespacedGateway, httpRoutes) =
     (let listener = groupListener rg;
          gwKey = gatewayKey rg;
          listenersByNamespacedGateway1 = appendAt gwKey listener listenersByNamespacedGateway
      in case toHTTPRoute (po rgKey) rg of
           Inl x \<Rightarrow> Inl x
         | Inr (httpRoute, errors) \<Rightarrow>
             let errors1 = errors @ errors
             in ruleGroupsLoop po rest (listenersByNamespacedGateway1, httpRoutes @ [httpRoute]))"

fun defaultBackendsLoop ::
  "ingressDefaultBackend list \<Rightarrow> HTTPRoute list \<times> error list \<Rightarrow>
   panic + (HTTPRoute list \<times> error list)" where
  "defaultBackendsLoop [] st = Inr st"
| "defaultBackendsLoop (db # rest) (httpRoutes, errors) =
     (let httpRoute =
            \<lparr>routeName = db_name db @ ''-default-backend'', routeNamespace = db_namespace db,
             parentRefs = [db_ingressClass db], hostnames = [], routeRules = []\<rparr>
      in case toBackendRef (db_backend db) of
           Panic x \<Rightarrow> Inl x
         | Error err \<Rightarrow> defaultBackendsLoop rest (httpRoutes @ [httpRoute], errors @ [err])
         | Ok backendRef \<Rightarrow>
             defaultBackendsLoop rest
               (httpRoutes @
                  [httpRoute\<lparr>routeRules := [\<lparr>matches = [], backendRefs = [backendRef]\<rparr>]\<rparr>],
                errors))"

fun splitOn :: "char \<Rightarrow> string \<Rightarrow> string list" where
  \<comment> \<open>\<^verbatim>\<open>strings.Split\<close> with a separator of one byte\<close>
  "splitOn sep [] = [[]]"
| "splitOn sep (c # cs) =
     (if c = sep then [] # splitOn sep cs
      else case splitOn sep cs of
             [] \<Rightarrow> [[c]]
           | part # parts \<Rightarrow> (c # part) # parts)"

fun appendListeners :: "Listener list \<Rightarrow> Listener list \<Rightarrow> Listener list" where
  \<comment> \<open>the loop over one gateway key's listeners, appending to \<^verbatim>\<open>gateway.Spec.Listeners\<close>\<close>
  "appendListeners [] out = out"
| "appendListeners (listener # rest) out =
     (let listenerNamePrefix =
            (case lHostname listener of
               None \<Rightarrow> []
             | Some h \<Rightarrow> if h \<noteq> [] then nameFromHost h @ ''-'' else []);
          out1 = out @ [\<lparr>lName = listenerNamePrefix @ ''http'', lHostname = lHostname listener,
                          lPort = 80, lProtocol = HTTPProtocolType, lTLS = None\<rparr>];
          out2 = (case lTLS listener of
                    None \<Rightarrow> out1
                  | Some t \<Rightarrow>
                      out1 @ [\<lparr>lName = listenerNamePrefix @ ''https'',
                                lHostname = lHostname listener, lPort = 443,
                                lProtocol = HTTPSProtocolType, lTLS = Some t\<rparr>])
      in appendListeners rest out2)"

fun gatewaysLoop ::
  "(string \<times> Listener list) list \<Rightarrow> Gateway gomap \<times> error list \<Rightarrow> Gateway gomap \<times> error list"
  where
  \<comment> \<open>the loop over \<^verbatim>\<open>listenersByNamespacedGateway\<close>; the state is \<^verbatim>\<open>gatewaysByKey\<close> and
      \<^verbatim>\<open>errors\<close>. The gateway is held by pointer, so the map sees the appended listeners.\<close>
  "gatewaysLoop [] st = st"
| "gatewaysLoop ((gwKey, ls) # rest) (gatewaysByKey, errors) =
     (case splitOn CHR ''/'' gwKey of
        [p0, p1] \<Rightarrow>
          let gateway = (case map_of gatewaysByKey gwKey of
                           Some g \<Rightarrow> g
                         | None \<Rightarrow> \<lparr>gwNamespace = p0, gwName = p1, gatewayClassName = p1,
                                     listeners = []\<rparr>);
              gateway1 = gateway\<lparr>listeners := appendListeners ls (listeners gateway)\<rparr>
          in gatewaysLoop rest (AList.update gwKey gateway1 gatewaysByKey, errors)
      | _ \<Rightarrow> gatewaysLoop rest (gatewaysByKey, errors @ [MalformedGatewayKey gwKey]))"

definition toHTTPRoutesAndGateways ::
  "iteration \<Rightarrow> ingressAggregator \<Rightarrow> panic + (HTTPRoute list \<times> Gateway list \<times> error list)"
  where
  "toHTTPRoutesAndGateways it a =
     (case ruleGroupsLoop (pathsOrder it) (rangeOrder (groupsOrder it) (ruleGroups a)) ([], []) of
        Inl x \<Rightarrow> Inl x
      | Inr (listenersByNamespacedGateway, httpRoutes1) \<Rightarrow>
          (case defaultBackendsLoop (defaultBackends a) (httpRoutes1, []) of
             Inl x \<Rightarrow> Inl x
           | Inr (httpRoutes, errors1) \<Rightarrow>
               (case gatewaysLoop
                       (rangeOrder (listenersOrder it) listenersByNamespacedGateway)
                       ([], errors1) of
                  (gatewaysByKey, errors) \<Rightarrow>
                    Inr (httpRoutes, map snd (rangeOrder (gatewaysOrder it) gatewaysByKey),
                         errors))))"

subsection \<open>The conversion run\<close>

definition emptyAggregator :: ingressAggregator where
  \<comment> \<open>Modelled from the spec: the aggregator that the caller constructs fresh for a run,
      with no rule group and no default backend.\<close>
  "emptyAggregator = \<lparr>ruleGroups = [], defaultBackends = []\<rparr>"

fun addIngresses :: "Ingress list \<Rightarrow> ingressAggregator \<Rightarrow> ingressAggregator" where
  \<comment> \<open>Modelled from the spec: the caller's loop that feeds the source objects into the
      aggregator one at a time, in the order of the input.\<close>
  "addIngresses [] a = a"
| "addIngresses (ingress # rest) a = addIngresses rest (addIngress ingress a)"

definition aggregate :: "Ingress list \<Rightarrow> ingressAggregator" where
  \<comment> \<open>Modelled from the spec: the aggregator once all source objects are consumed.\<close>
  "aggregate ingresses = addIngresses ingresses emptyAggregator"

definition ingresses2GatewaysAndHTTPRoutes ::
  "iteration \<Rightarrow> Ingress list \<Rightarrow> panic + (HTTPRoute list \<times> Gateway list \<times> error list)" where
  \<comment> \<open>Modelled from the spec: the caller of the aggregator, which is not in aggregator.go.
      The source objects are fed one at a time into an aggregator that starts empty; once
      all are consumed, one pass over the accumulated groups builds the routes, the
      gateways and the error list.\<close>
  "ingresses2GatewaysAndHTTPRoutes it ingresses = toHTTPRoutesAndGateways it (aggregate ingresses)"

section \<open>Notions used in the statements\<close>

subsection \<open>Decimal syntax\<close>

definition signless :: "string \<Rightarrow> string" where
  \<comment> \<open>the text without an optional leading sign\<close>
  "signless s = (if s \<noteq> [] \<and> (hd s = CHR ''+'' \<or> hd s = CHR ''-'') then tl s else s)"

definition decimalSyntax :: "string \<Rightarrow> bool" where
  \<comment> \<open>an optional sign followed by one or more decimal digits\<close>
  "decimalSyntax s \<longleftrightarrow> signless s \<noteq> [] \<and> list_all isDigit (signless s)"

subsection \<open>Example inputs\<close>

definition emptySpec :: IngressSpec where
  \<comment> \<open>an ingress specification with no class, rules, TLS entries or default backend\<close>
  "emptySpec = \<lparr>ingressClassName = None, defaultBackend = None, tls = [], rules = []\<rparr>"

definition canaryOnlyIngress :: Ingress where
  \<comment> \<open>an ingress whose only annotation enables the canary\<close>
  "canaryOnlyIngress =
     \<lparr>name = ''canary'', namespace = ''default'',
      annotations = [''nginx.ingress.kubernetes.io/canary'' \<mapsto> ''true''],
      spec = emptySpec\<rparr>"

definition canaryHeaderIngress :: Ingress where
  \<comment> \<open>a canary by header with a weight that is no number\<close>
  "canaryHeaderIngress =
     \<lparr>name = ''canary'', namespace = ''default'',
      annotations = [''nginx.ingress.kubernetes.io/canary'' \<mapsto> ''true'',
                     ''nginx.ingress.kubernetes.io/canary-by-header'' \<mapsto> ''X-Canary'',
                     ''nginx.ingress.kubernetes.io/canary-weight'' \<mapsto> ''ten''],
      spec = emptySpec\<rparr>"

definition numberedService :: "string \<Rightarrow> int32 \<Rightarrow> IngressBackend" where
  \<comment> \<open>a service backend with a port number\<close>
  "numberedService n p =
     \<lparr>service = Some \<lparr>svcName = n, svcPort = \<lparr>portName = [], portNumber = p\<rparr>\<rparr>,
      resource = None\<rparr>"

definition namedService :: "string \<Rightarrow> string \<Rightarrow> IngressBackend" where
  \<comment> \<open>a service backend with a port name\<close>
  "namedService n p =
     \<lparr>service = Some \<lparr>svcName = n, svcPort = \<lparr>portName = p, portNumber = 0\<rparr>\<rparr>,
      resource = None\<rparr>"

definition singlePathIngress ::
  "string \<Rightarrow> string \<Rightarrow> string \<Rightarrow> string \<Rightarrow> string \<Rightarrow> IngressBackend \<Rightarrow> Ingress" where
  \<comment> \<open>name, namespace, ingress class, host, path type and backend of an ingress with one
      rule of one path \<^verbatim>\<open>/\<close>\<close>
  "singlePathIngress n ns cls h t b =
     \<lparr>name = n, namespace = ns, annotations = Map.empty,
      spec = \<lparr>ingressClassName = Some cls, defaultBackend = None, tls = [],
              rules = [\<lparr>host = h,
                        http = Some [\<lparr>path = ''/'', pathType = Some t, backend = b\<rparr>]\<rparr>]\<rparr>\<rparr>"

definition implementationSpecificIngress :: Ingress where
  \<comment> \<open>an ingress whose only path has a path type that is neither Prefix nor Exact\<close>
  "implementationSpecificIngress =
     singlePathIngress ''web'' ''default'' ''nginx'' ''example.com'' ''ImplementationSpecific''
       (numberedService ''web'' 80)"

definition namedPortIngress :: Ingress where
  \<comment> \<open>an ingress whose only path goes to a named service port\<close>
  "namedPortIngress =
     singlePathIngress ''web'' ''default'' ''nginx'' ''example.com'' ''Prefix''
       (namedService ''web'' ''http'')"

subsection \<open>Weights\<close>

definition resolves :: "ingressPath \<Rightarrow> bool" where
  \<comment> \<open>the path contributes a backend reference to its rule\<close>
  "resolves p = (case toBackendRef (backend (ip_path p)) of Ok _ \<Rightarrow> True | _ \<Rightarrow> False)"

definition explicitWeights :: "ingressPath list \<Rightarrow> int32 list" where
  \<comment> \<open>the explicit weights among the paths, in order\<close>
  "explicitWeights ps = List.map_filter explicitWeight ps"

definition evenShare :: "int32 list \<Rightarrow> nat \<Rightarrow> int32" where
  \<comment> \<open>(100 - sum of the explicit weights) divided by (backend count - number of
      weighted backends), the quotient truncated towards zero, in 32-bit arithmetic\<close>
  "evenShare ws n =
     word_of_int (sint (100 - sum_list ws) sdiv sint (of_nat n - of_nat (length ws) :: int32))"

definition weightedPath :: "string \<Rightarrow> int \<Rightarrow> ingressPath" where
  \<comment> \<open>a path \<^verbatim>\<open>/\<close> to a service on port 80 from an ingress with the given canary weight\<close>
  "weightedPath svc w =
     \<lparr>ip_path = \<lparr>path = ''/'', pathType = Some ''Prefix'', backend = numberedService svc 80\<rparr>,
      ip_extra = Some \<lparr>canary = Some \<lparr>enable = True, headerKey = [], headerValue = [],
                                      headerRegexMatch = False, weight = w, weightTotal = 100\<rparr>\<rparr>\<rparr>"

definition ruleWeights :: "panic + (HTTPRouteRule option \<times> error list) \<Rightarrow> int32 option list" where
  \<comment> \<open>the weights of the backends of a built rule\<close>
  "ruleWeights res =
     (case res of Inr (Some r, _) \<Rightarrow> map brWeight (backendRefs r) | _ \<Rightarrow> [])"

definition weightedRef :: "string \<Rightarrow> int32 option \<Rightarrow> BackendRef" where
  \<comment> \<open>the reference to a service on port 80, with a weight or none\<close>
  "weightedRef svc w =
     \<lparr>brGroup = None, brKind = None, brName = svc, brPort = Some 80, brWeight = w\<rparr>"

definition prefixRule :: "BackendRef list \<Rightarrow> HTTPRouteRule" where
  \<comment> \<open>a rule for the prefix \<^verbatim>\<open>/\<close> with the given backends\<close>
  "prefixRule brs =
     \<lparr>matches = [\<lparr>pmType = PathMatchPathPrefix, pmValue = ''/'', headers = []\<rparr>],
      backendRefs = brs\<rparr>"

definition mixedWeights :: "ingressPath list" where
  \<comment> \<open>a partition with the weights 30, none and none\<close>
  "mixedWeights = [weightedPath ''a'' 30, weightedPath ''b'' 0, weightedPath ''c'' 0]"

definition fullWeights :: "ingressPath list" where
  \<comment> \<open>a partition in which every path has a weight\<close>
  "fullWeights = [weightedPath ''a'' 60, weightedPath ''b'' 40]"

definition noWeights :: "ingressPath list" where
  \<comment> \<open>a partition in which no path has a weight\<close>
  "noWeights = [weightedPath ''a'' 0, weightedPath ''b'' 0]"

definition canaryWeight :: "ingressPath \<Rightarrow> int" where
  \<comment> \<open>the canary weight of the path's source object, \<open>0\<close> when it has no canary\<close>
  "canaryWeight p = (case canaryOf (ip_extra p) of None \<Rightarrow> 0 | Some c \<Rightarrow> weight c)"

definition integerShare :: "ingressPath list \<Rightarrow> int" where
  \<comment> \<open>(100 - sum of the canary weights) divided by (number of paths - number of paths
      with a canary weight other than \<open>0\<close>), over the integers, truncated towards zero\<close>
  "integerShare ps =
     (100 - (\<Sum>p\<leftarrow>ps. canaryWeight p)) sdiv
       (int (length ps) - int (length (filter (\<lambda>p. canaryWeight p \<noteq> 0) ps)))"

definition int32Weights :: "ingressPath list \<Rightarrow> bool" where
  \<comment> \<open>every canary weight is an \<^verbatim>\<open>int32\<close>, and so is 100 minus their sum\<close>
  "int32Weights ps \<longleftrightarrow>
     list_all (\<lambda>p. - (2 ^ 31) \<le> canaryWeight p \<and> canaryWeight p < 2 ^ 31) ps \<and>
     - (2 ^ 31) \<le> 100 - (\<Sum>p\<leftarrow>ps. canaryWeight p) \<and>
     100 - (\<Sum>p\<leftarrow>ps. canaryWeight p) < 2 ^ 31"

definition truncatedWeights :: "ingressPath list" where
  \<comment> \<open>a partition with the weights \<open>2\<^sup>3\<^sup>2\<close> and none\<close>
  "truncatedWeights = [weightedPath ''a'' 4294967296, weightedPath ''b'' 0]"

definition wrappingWeights :: "ingressPath list" where
  \<comment> \<open>a partition with the weights \<open>2\<^sup>3\<^sup>1 - 1\<close>, \<open>2\<^sup>3\<^sup>1 - 1\<close> and none\<close>
  "wrappingWeights =
     [weightedPath ''a'' 2147483647, weightedPath ''b'' 2147483647, weightedPath ''c'' 0]"

subsection \<open>Maps that collect lists, and the paths of a rule group\<close>

definition entriesFor :: "string \<Rightarrow> (string \<times> 'v) list \<Rightarrow> 'v list" where
  \<comment> \<open>the values that a list of key-value pairs holds under a key, in order\<close>
  "entriesFor k kvs = map snd (filter (\<lambda>kv. fst kv = k) kvs)"

fun appendAll :: "(string \<times> 'v) list \<Rightarrow> 'v list gomap \<Rightarrow> 'v list gomap" where
  \<comment> \<open>\<open>appendAt\<close> for each pair of a list, from the left\<close>
  "appendAll [] m = m"
| "appendAll ((k, v) # kvs) m = appendAll kvs (appendAt k v m)"

definition pathsOfRule :: "ingressRule \<Rightarrow> ingressPath list" where
  \<comment> \<open>the paths of a rule, each with the extra data of the rule\<close>
  "pathsOfRule ir =
     (case http (ir_rule ir) of
        None \<Rightarrow> []
      | Some ps \<Rightarrow> map (\<lambda>p. \<lparr>ip_path = p, ip_extra = ir_extra ir\<rparr>) ps)"

definition ingressPaths :: "ingressRuleGroup \<Rightarrow> ingressPath list" where
  \<comment> \<open>the paths of a rule group, in the order of its rules\<close>
  "ingressPaths rg = concat (map pathsOfRule (rg_rules rg))"

definition keyed :: "ingressPath list \<Rightarrow> (string \<times> ingressPath) list" where
  \<comment> \<open>each path with its path match key\<close>
  "keyed ips = map (\<lambda>ip. (getPathMatchKey ip, ip)) ips"

subsection \<open>Rule groups for the examples\<close>

definition hasTarget :: "IngressBackend \<Rightarrow> bool" where
  \<comment> \<open>the backend has a service or a resource\<close>
  "hasTarget ib \<longleftrightarrow> service ib \<noteq> None \<or> resource ib \<noteq> None"

definition ruleGroupOf :: "HTTPIngressPath list option \<Rightarrow> ingressRuleGroup" where
  \<comment> \<open>a rule group of one rule with the given HTTP section\<close>
  "ruleGroupOf ps =
     \<lparr>rg_namespace = ''default'', rg_ingressClass = ''nginx'', rg_host = ''example.com'',
      rg_tls = [],
      rg_rules = [\<lparr>ir_rule = \<lparr>host = ''example.com'', http = ps\<rparr>, ir_extra = None\<rparr>]\<rparr>"

definition untypedPath :: HTTPIngressPath where
  \<comment> \<open>a path without a path type\<close>
  "untypedPath = \<lparr>path = ''/'', pathType = None, backend = numberedService ''web'' 80\<rparr>"

definition prefixPath :: HTTPIngressPath where
  \<comment> \<open>a path of type Prefix\<close>
  "prefixPath = \<lparr>path = ''/'', pathType = Some ''Prefix'', backend = numberedService ''web'' 80\<rparr>"

subsection \<open>Source rules and their groups\<close>

record sourceRule =
  sr_namespace :: string
  sr_ingressClass :: string
  sr_rule :: IngressRule
  sr_tls :: "IngressTLS list"
  sr_extra :: "extra option"

definition sourceRulesOf :: "Ingress \<Rightarrow> sourceRule list" where
  \<comment> \<open>the source rules of a source object: one for each of its rules, each with the
      namespace, the resolved ingress class, the TLS entries and the extra data of the object\<close>
  "sourceRulesOf ingress =
     map (\<lambda>r. \<lparr>sr_namespace = namespace ingress, sr_ingressClass = resolveIngressClass ingress,
               sr_rule = r, sr_tls = tls (spec ingress), sr_extra = Some (getExtra ingress)\<rparr>)
       (rules (spec ingress))"

definition sourceRules :: "Ingress list \<Rightarrow> sourceRule list" where
  \<comment> \<open>the source rules of a run, in the order of their arrival\<close>
  "sourceRules ingresses = concat (map sourceRulesOf ingresses)"

definition sourceTuple :: "sourceRule \<Rightarrow> string \<times> string \<times> string" where
  \<comment> \<open>the (namespace, ingress class, host) of a source rule\<close>
  "sourceTuple sr = (sr_namespace sr, sr_ingressClass sr, host (sr_rule sr))"

definition sourceKey :: "sourceRule \<Rightarrow> string" where
  \<comment> \<open>the grouping key of a source rule\<close>
  "sourceKey sr = ruleGroupKey (sr_namespace sr) (sr_ingressClass sr) (host (sr_rule sr))"

definition toIngressRule :: "sourceRule \<Rightarrow> ingressRule" where
  \<comment> \<open>what a rule group stores of a source rule\<close>
  "toIngressRule sr = \<lparr>ir_rule = sr_rule sr, ir_extra = sr_extra sr\<rparr>"

definition groupOf :: "string \<Rightarrow> sourceRule list \<Rightarrow> ingressRuleGroup option" where
  \<comment> \<open>the group of the source rules with a key: none if there is no such rule, else
      the namespace, class and host of the first, and the TLS entries and rules of all\<close>
  "groupOf k srs =
     (case filter (\<lambda>sr. sourceKey sr = k) srs of
        [] \<Rightarrow> None
      | sr # rest \<Rightarrow>
          Some \<lparr>rg_namespace = sr_namespace sr, rg_ingressClass = sr_ingressClass sr,
                rg_host = host (sr_rule sr), rg_tls = concat (map sr_tls (sr # rest)),
                rg_rules = map toIngressRule (sr # rest)\<rparr>)"

definition groupsOf :: "ingressAggregator \<Rightarrow> sourceRule list \<Rightarrow> bool" where
  \<comment> \<open>the aggregator holds one group for each key, that of the given source rules\<close>
  "groupsOf a srs \<longleftrightarrow>
     distinct (map fst (ruleGroups a)) \<and> (\<forall>k. map_of (ruleGroups a) k = groupOf k srs)"

subsection \<open>Grouping keys\<close>

definition collisionFree :: "sourceRule list \<Rightarrow> bool" where
  \<comment> \<open>source rules with the same key have the same tuple\<close>
  "collisionFree srs \<longleftrightarrow>
     list_all (\<lambda>sr. list_all (\<lambda>sr'. sourceKey sr \<noteq> sourceKey sr' \<or> sourceTuple sr = sourceTuple sr')
       srs) srs"

definition separable :: "Ingress list \<Rightarrow> bool" where
  \<comment> \<open>no namespace of the run has a \<^verbatim>\<open>/\<close>, and either no resolved ingress class or no
      host has one\<close>
  "separable ings \<longleftrightarrow>
     list_all (\<lambda>i. CHR ''/'' \<notin> set (namespace i)) ings \<and>
     (list_all (\<lambda>i. CHR ''/'' \<notin> set (resolveIngressClass i)) ings \<or>
      list_all (\<lambda>i. list_all (\<lambda>r. CHR ''/'' \<notin> set (host r)) (rules (spec i))) ings)"

definition groupTuple :: "ingressRuleGroup \<Rightarrow> string \<times> string \<times> string" where
  \<comment> \<open>the (namespace, ingress class, host) recorded in a rule group\<close>
  "groupTuple rg = (rg_namespace rg, rg_ingressClass rg, rg_host rg)"

definition slashClassIngress :: Ingress where
  \<comment> \<open>an ingress of class \<^verbatim>\<open>a/b\<close> for the host \<^verbatim>\<open>c\<close>\<close>
  "slashClassIngress =
     singlePathIngress ''one'' ''default'' ''a/b'' ''c'' ''Prefix'' (numberedService ''web'' 80)"

definition slashHostIngress :: Ingress where
  \<comment> \<open>an ingress of class \<^verbatim>\<open>a\<close> for the host \<^verbatim>\<open>b/c\<close>\<close>
  "slashHostIngress =
     singlePathIngress ''two'' ''default'' ''a'' ''b/c'' ''Prefix'' (numberedService ''web'' 80)"

definition hostAIngress :: Ingress where
  \<comment> \<open>an ingress of class nginx for the host a.example.com\<close>
  "hostAIngress =
     singlePathIngress ''one'' ''default'' ''nginx'' ''a.example.com'' ''Prefix''
       (numberedService ''web'' 80)"

definition hostBIngress :: Ingress where
  \<comment> \<open>an ingress of the same namespace and class for the host b.example.com\<close>
  "hostBIngress =
     singlePathIngress ''two'' ''default'' ''nginx'' ''b.example.com'' ''Prefix''
       (numberedService ''web'' 80)"

subsection \<open>Gateways\<close>

definition validGatewayKey :: "string \<Rightarrow> bool" where
  \<comment> \<open>the key splits at \<^verbatim>\<open>/\<close> into exactly two parts\<close>
  "validGatewayKey k \<longleftrightarrow> length (splitOn CHR ''/'' k) = 2"

definition expandListener :: "Listener \<Rightarrow> Listener list" where
  \<comment> \<open>the listeners that the loop over a gateway key's listeners appends for one of them\<close>
  "expandListener l =
     (let listenerNamePrefix =
            (case lHostname l of
               None \<Rightarrow> []
             | Some h \<Rightarrow> if h \<noteq> [] then nameFromHost h @ ''-'' else [])
      in \<lparr>lName = listenerNamePrefix @ ''http'', lHostname = lHostname l, lPort = 80,
          lProtocol = HTTPProtocolType, lTLS = None\<rparr> #
         (case lTLS l of
            None \<Rightarrow> []
          | Some t \<Rightarrow> [\<lparr>lName = listenerNamePrefix @ ''https'', lHostname = lHostname l,
                        lPort = 443, lProtocol = HTTPSProtocolType, lTLS = Some t\<rparr>]))"

definition gatewayFor :: "string \<Rightarrow> Listener list \<Rightarrow> Gateway" where
  \<comment> \<open>the gateway built for a key with two parts and its listeners\<close>
  "gatewayFor k ls =
     (let parts = splitOn CHR ''/'' k
      in \<lparr>gwNamespace = parts ! 0, gwName = parts ! 1, gatewayClassName = parts ! 1,
          listeners = concat (map expandListener ls)\<rparr>)"

definition keyedListeners :: "(string \<times> ingressRuleGroup) list \<Rightarrow> (string \<times> Listener) list" where
  \<comment> \<open>for each rule group visited, its gateway key and its listener\<close>
  "keyedListeners gs = map (\<lambda>(k, rg). (gatewayKey rg, groupListener rg)) gs"

definition builtRoute :: "nat \<Rightarrow> ingressRuleGroup \<Rightarrow> HTTPRoute option" where
  \<comment> \<open>the route of a rule group, if \<open>toHTTPRoute\<close> returns\<close>
  "builtRoute po rg = (case toHTTPRoute po rg of Inl x \<Rightarrow> None | Inr (r, es) \<Rightarrow> Some r)"

definition keyPair :: "string \<Rightarrow> string \<times> string" where
  \<comment> \<open>the first two parts of a key\<close>
  "keyPair k = (splitOn CHR ''/'' k ! 0, splitOn CHR ''/'' k ! 1)"

definition gatewayId :: "Gateway \<Rightarrow> string \<times> string" where
  \<comment> \<open>namespace and name of a gateway\<close>
  "gatewayId g = (gwNamespace g, gwName g)"

definition groupPair :: "ingressRuleGroup \<Rightarrow> string \<times> string" where
  \<comment> \<open>namespace and ingress class of a rule group\<close>
  "groupPair rg = (rg_namespace rg, rg_ingressClass rg)"

definition slashFree :: "ingressRuleGroup \<Rightarrow> bool" where
  \<comment> \<open>neither the namespace nor the ingress class of the group has a \<^verbatim>\<open>/\<close>\<close>
  "slashFree rg \<longleftrightarrow> CHR ''/'' \<notin> set (rg_namespace rg) \<and> CHR ''/'' \<notin> set (rg_ingressClass rg)"

subsection \<open>Listeners of a rule group\<close>

definition listenerHostname :: "ingressRuleGroup \<Rightarrow> string option" where
  \<comment> \<open>the host name of the listeners of a rule group: the host of the group or, for
      the empty host, the single host of the single TLS entry if there is one\<close>
  "listenerHostname rg =
     (if rg_host rg \<noteq> [] then Some (rg_host rg)
      else case rg_tls rg of
             [t] \<Rightarrow> (case tlsHosts t of [h] \<Rightarrow> Some h | _ \<Rightarrow> None)
           | _ \<Rightarrow> None)"

definition listenerNamePrefix :: "ingressRuleGroup \<Rightarrow> string" where
  \<comment> \<open>the sanitized host name and a \<^verbatim>\<open>-\<close>, or nothing without a host name\<close>
  "listenerNamePrefix rg =
     (case listenerHostname rg of
        None \<Rightarrow> []
      | Some h \<Rightarrow> if h \<noteq> [] then nameFromHost h @ ''-'' else [])"

definition httpListener :: "ingressRuleGroup \<Rightarrow> Listener" where
  \<comment> \<open>the HTTP listener of a rule group, on port 80\<close>
  "httpListener rg =
     \<lparr>lName = listenerNamePrefix rg @ ''http'', lHostname = listenerHostname rg, lPort = 80,
      lProtocol = ''HTTP'', lTLS = None\<rparr>"

definition httpsListener :: "ingressRuleGroup \<Rightarrow> Listener" where
  \<comment> \<open>the HTTPS listener of a rule group, on port 443, with one certificate reference
      for each TLS entry of the group\<close>
  "httpsListener rg =
     \<lparr>lName = listenerNamePrefix rg @ ''https'', lHostname = listenerHostname rg, lPort = 443,
      lProtocol = ''HTTPS'',
      lTLS = Some \<lparr>certificateRefs = map secretName (rg_tls rg)\<rparr>\<rparr>"

definition listenersOfGroup :: "ingressRuleGroup \<Rightarrow> Listener list" where
  \<comment> \<open>the HTTP listener always, and the HTTPS listener when the group has TLS entries\<close>
  "listenersOfGroup rg =
     (if rg_tls rg = [] then [httpListener rg] else [httpListener rg, httpsListener rg])"

definition listenerMap :: "iteration \<Rightarrow> ingressAggregator \<Rightarrow> Listener list gomap" where
  \<comment> \<open>\<^verbatim>\<open>listenersByNamespacedGateway\<close> after the loop over the rule groups, as the loop
      over it visits it\<close>
  "listenerMap it a =
     rangeOrder (listenersOrder it)
       (appendAll (keyedListeners (rangeOrder (groupsOrder it) (ruleGroups a))) [])"

subsection \<open>The stored order\<close>

definition storedOrder :: iteration where
  \<comment> \<open>every map is visited in the order in which it is stored\<close>
  "storedOrder = \<lparr>groupsOrder = 0, pathsOrder = (\<lambda>k. 0), listenersOrder = 0, gatewaysOrder = 0\<rparr>"

subsection \<open>Example outputs\<close>

definition plainListener :: "string \<Rightarrow> string \<Rightarrow> Listener" where
  \<comment> \<open>an HTTP listener on port 80 with a name and a host name\<close>
  "plainListener n h =
     \<lparr>lName = n, lHostname = Some h, lPort = 80, lProtocol = ''HTTP'', lTLS = None\<rparr>"

definition prefixRoute :: "string \<Rightarrow> string \<Rightarrow> string \<Rightarrow> HTTPRoute" where
  \<comment> \<open>the route, by name, parent and host, of a group with the one prefix rule\<close>
  "prefixRoute n cls h =
     \<lparr>routeName = n, routeNamespace = ''default'', parentRefs = [cls], hostnames = [h],
      routeRules = [prefixRule [weightedRef ''web'' None]]\<rparr>"

definition nginxGateway :: "Listener list \<Rightarrow> Gateway" where
  \<comment> \<open>the gateway \<^verbatim>\<open>nginx\<close> of the namespace \<^verbatim>\<open>default\<close>\<close>
  "nginxGateway ls =
     \<lparr>gwNamespace = ''default'', gwName = ''nginx'', gatewayClassName = ''nginx'',
      listeners = ls\<rparr>"

subsection \<open>Rules and routes without their order\<close>

definition builtRule :: "ingressPath list \<Rightarrow> HTTPRouteRule option" where
  \<comment> \<open>the rule of a partition, if there is one\<close>
  "builtRule paths = (case buildRule paths [] of Inl x \<Rightarrow> None | Inr (r, es) \<Rightarrow> r)"

definition ruleErrors :: "ingressPath list \<Rightarrow> error list" where
  \<comment> \<open>the errors of a partition\<close>
  "ruleErrors paths = (case buildRule paths [] of Inl x \<Rightarrow> [] | Inr (r, es) \<Rightarrow> es)"

definition rulePanics :: "ingressPath list \<Rightarrow> bool" where
  \<comment> \<open>building the rule of the partition panics\<close>
  "rulePanics paths = (case buildRule paths [] of Inl x \<Rightarrow> True | Inr res \<Rightarrow> False)"

definition routeContent ::
  "HTTPRoute \<Rightarrow> string \<times> string \<times> string list \<times> string list \<times> HTTPRouteRule multiset" where
  \<comment> \<open>a route with its rules as a multiset\<close>
  "routeContent r =
     (routeName r, routeNamespace r, parentRefs r, hostnames r, mset (routeRules r))"

definition partitionsOf :: "ingressRuleGroup \<Rightarrow> ingressPath list gomap" where
  \<comment> \<open>\<^verbatim>\<open>pathsByMatchGroup\<close> of a rule group whose rules all have an HTTP section\<close>
  "partitionsOf rg = appendAll (keyed (ingressPaths rg)) []"

definition groupPanics :: "ingressRuleGroup \<Rightarrow> bool" where
  \<comment> \<open>a rule of the group has no HTTP section, or building the rule of one of its
      partitions panics\<close>
  "groupPanics rg \<longleftrightarrow>
     list_ex (\<lambda>ir. http (ir_rule ir) = None) (rg_rules rg) \<or>
     list_ex (\<lambda>(k, paths). rulePanics paths) (partitionsOf rg)"

definition groupContent ::
  "ingressRuleGroup \<Rightarrow> string \<times> string \<times> string list \<times> string list \<times> HTTPRouteRule multiset"
  where
  \<comment> \<open>the route of a rule group with its rules as a multiset\<close>
  "groupContent rg =
     (nameFromHost (rg_host rg), rg_namespace rg,
      (if rg_ingressClass rg \<noteq> [] then [rg_ingressClass rg] else []),
      (if rg_host rg \<noteq> [] then [rg_host rg] else []),
      mset (List.map_filter (\<lambda>(k, paths). builtRule paths) (partitionsOf rg)))"

subsection \<open>Gateways without their order\<close>

definition gatewayContent ::
  "Gateway \<Rightarrow> string \<times> string \<times> string \<times> Listener multiset" where
  \<comment> \<open>a gateway with its listeners as a multiset\<close>
  "gatewayContent g = (gwNamespace g, gwName g, gatewayClassName g, mset (listeners g))"

definition keyContent ::
  "ingressAggregator \<Rightarrow> string \<Rightarrow> string \<times> string \<times> string \<times> Listener multiset" where
  \<comment> \<open>the gateway of a key with its listeners as a multiset\<close>
  "keyContent a k =
     (fst (keyPair k), snd (keyPair k), snd (keyPair k),
      mset (concat (map listenersOfGroup
        (filter (\<lambda>rg. gatewayKey rg = k) (map snd (ruleGroups a))))))"

definition reversedGroups :: iteration where
  \<comment> \<open>as \<open>storedOrder\<close>, but the map of two rule groups is visited last group first\<close>
  "reversedGroups = storedOrder\<lparr>groupsOrder := 1\<rparr>"

subsection \<open>An ingress that makes the run panic\<close>

definition noHTTPIngress :: Ingress where
  \<comment> \<open>an ingress whose rule has no HTTP section\<close>
  "noHTTPIngress =
     \<lparr>name = ''bare'', namespace = ''default'', annotations = Map.empty,
      spec = \<lparr>ingressClassName = Some ''nginx'', defaultBackend = None, tls = [],
              rules = [\<lparr>host = ''example.com'', http = None\<rparr>]\<rparr>\<rparr>"

section \<open>Properties\<close>

subsection \<open>The name sanitizer\<close>

lemma replaceAllSpecial_alnum: "list_all isAlnum w \<Longrightarrow> replaceAllSpecial w = w"
  by (induction w) auto

lemma dropWhile_run:
  "list_all P r \<Longrightarrow> b = [] \<or> \<not> P (hd b) \<Longrightarrow> dropWhile P (r @ b) = b"
proof (induction r)
  case Nil
  then show ?case by (cases b) auto
next
  case (Cons a r)
  then show ?case by simp
qed

lemma replaceAllSpecial_run:
  "r \<noteq> [] \<Longrightarrow> list_all special r \<Longrightarrow> b = [] \<or> isAlnum (hd b) \<Longrightarrow>
   replaceAllSpecial (r @ b) = CHR ''-'' # replaceAllSpecial b"
  by (cases r) (auto simp: dropWhile_run)

lemma replaceAllSpecial_word_run:
  "list_all isAlnum w \<Longrightarrow> r \<noteq> [] \<Longrightarrow> list_all special r \<Longrightarrow> b = [] \<or> isAlnum (hd b) \<Longrightarrow>
   replaceAllSpecial (w @ r @ b) = w @ CHR ''-'' # replaceAllSpecial b"
  by (induction w) (auto simp: replaceAllSpecial_run)

lemma replaceAllSpecial_keeps_head:
  "b = [] \<or> isAlnum (hd b) \<Longrightarrow> dropWhile special (replaceAllSpecial b) = replaceAllSpecial b"
  by (cases b) auto

lemma special_dash: "special CHR ''-''"
  by (simp add: isAlnum_def less_eq_char_def)

lemma nameFromHost_strip:
  assumes "list_all special r" and "b = [] \<or> isAlnum (hd b)" and "r @ b \<noteq> []"
  shows "nameFromHost (r @ b) = replaceAllSpecial b"
proof (cases "r = []")
  case True
  with assms show ?thesis
    by (simp add: nameFromHost_def removeLeadingSpecial_def replaceAllSpecial_keeps_head)
next
  case False
  with assms show ?thesis
    by (simp add: nameFromHost_def removeLeadingSpecial_def replaceAllSpecial_run special_dash
        replaceAllSpecial_keeps_head)
qed

text \<open>
  C9, as the code has it. The empty host gives the token \<^verbatim>\<open>all-hosts\<close>. For any other
  host the leading run of characters outside \<^verbatim>\<open>[a-zA-Z0-9]\<close> is dropped, every later
  maximal run of such characters becomes one \<^verbatim>\<open>-\<close>, and the characters of the class
  stay as they are. The examples of the specification hold. The token is not returned
  for the empty host only: a host such as \<^verbatim>\<open>all.hosts\<close> is sanitized to the same text.
\<close>

theorem nameFromHost_sanitizes:
  "nameFromHost [] = ''all-hosts'' \<and>
   (list_all special r \<and> (b = [] \<or> isAlnum (hd b)) \<and> r @ b \<noteq> [] \<longrightarrow>
      nameFromHost (r @ b) = replaceAllSpecial b) \<and>
   (list_all isAlnum w \<longrightarrow> replaceAllSpecial w = w) \<and>
   (list_all isAlnum w \<and> r \<noteq> [] \<and> list_all special r \<and> (b = [] \<or> isAlnum (hd b)) \<longrightarrow>
      replaceAllSpecial (w @ r @ b) = w @ ''-'' @ replaceAllSpecial b) \<and>
   nameFromHost ''foo.bar.com'' = ''foo-bar-com'' \<and>
   nameFromHost ''-abc.de'' = ''abc-de''"
proof -
  have "nameFromHost [] = ''all-hosts''"
    by (simp add: nameFromHost_def)
  moreover have "nameFromHost ''foo.bar.com'' = ''foo-bar-com''"
    by (simp add: nameFromHost_def removeLeadingSpecial_def isAlnum_def less_eq_char_def)
  moreover have "nameFromHost ''-abc.de'' = ''abc-de''"
    by (simp add: nameFromHost_def removeLeadingSpecial_def isAlnum_def less_eq_char_def)
  ultimately show ?thesis
    using nameFromHost_strip [of r b] replaceAllSpecial_alnum [of w]
      replaceAllSpecial_word_run [of w r b]
    by simp
qed

theorem nameFromHost_sanitizes_witness:
  "list_all special ''..'' \<and> list_all isAlnum ''ab'' \<and> isAlnum (hd ''cd_e'') \<and>
   nameFromHost ''..cd_e'' = ''cd-e'' \<and> replaceAllSpecial ''ab..cd_e'' = ''ab-cd-e''"
proof -
  have h: "list_all special ''..'' \<and> list_all isAlnum ''ab'' \<and> isAlnum (hd ''cd_e'')"
    by (simp add: isAlnum_def less_eq_char_def)
  have e: "replaceAllSpecial ''cd_e'' = ''cd-e''"
    by (simp add: isAlnum_def less_eq_char_def)
  from h e show ?thesis
    using nameFromHost_sanitizes [of "''..''" "''cd_e''" "''ab''"] by simp
qed

theorem nameFromHost_token_counterexample:
  "nameFromHost ''all.hosts'' = ''all-hosts'' \<and> ''all.hosts'' \<noteq> []"
  by (simp add: nameFromHost_def removeLeadingSpecial_def isAlnum_def less_eq_char_def)

subsection \<open>The annotation extractor\<close>

lemma digitVal_bounds: "isDigit c \<Longrightarrow> 0 \<le> digitVal c \<and> digitVal c \<le> 9"
proof -
  assume "isDigit c"
  then have "48 \<le> (of_char c :: nat) \<and> (of_char c :: nat) \<le> 57"
    by (simp add: isDigit_def less_eq_char_def)
  moreover have "(of_char c :: int) = int (of_char c :: nat)"
    by (simp add: of_char_def)
  ultimately show ?thesis by (simp add: digitVal_def)
qed

lemma parseUint_syntax:
  "\<not> list_all isDigit ds \<Longrightarrow> 0 \<le> n \<Longrightarrow> n < 10 ^ k \<Longrightarrow> k + length ds \<le> 19 \<Longrightarrow>
   parseUint n ds = SyntaxError"
proof (induction ds arbitrary: n k)
  case Nil
  then show ?case by simp
next
  case (Cons c cs)
  show ?case
  proof (cases "isDigit c")
    case False
    then show ?thesis by simp
  next
    case True
    note d = digitVal_bounds [OF True]
    have k: "Suc k \<le> 19" using Cons.prems by simp
    have lt: "n * 10 + digitVal c < 10 ^ Suc k" using Cons.prems d by simp
    also have "(10::int) ^ Suc k \<le> 10 ^ 19" using k by (intro power_increasing) auto
    finally have small: "n * 10 + digitVal c < 2 ^ 64" by simp
    have "parseUint (n * 10 + digitVal c) cs = SyntaxError"
      using Cons.prems True d lt by (intro Cons.IH [where k = "Suc k"]) auto
    then show ?thesis using True small by simp
  qed
qed

lemma Atoi_syntax_error:
  assumes len: "length s \<le> 18" and bad: "\<not> decimalSyntax s"
  shows "Atoi s = 0"
proof -
  have l: "length (signless s) \<le> 18" using len by (auto simp: signless_def)
  show ?thesis
  proof (cases "signless s = []")
    case True
    then show ?thesis by (auto simp: Atoi_def signless_def Let_def)
  next
    case False
    then have "\<not> list_all isDigit (signless s)" using bad by (simp add: decimalSyntax_def)
    then have "parseUint 0 (signless s) = SyntaxError"
      using l by (intro parseUint_syntax [where k = 0]) auto
    then show ?thesis using False by (auto simp: Atoi_def signless_def Let_def)
  qed
qed

text \<open>
  C7, as the code has it. With the canary annotation set to \<^verbatim>\<open>true\<close>, the header key is
  the header-name annotation; the header value is the pattern annotation if there is one,
  else the header-value annotation if there is one, else \<^verbatim>\<open>always\<close> if there is a header
  name; the match is by regular expression exactly when there is a pattern; the weight is
  what \<open>Atoi\<close> makes of the weight annotation, which is \<open>0\<close> for a text of up to 18
  bytes that is no decimal number; and the weight total is what \<open>Atoi\<close> makes of the
  weight-total annotation if there is one, else \<open>100\<close> if there is a weight annotation,
  else \<open>0\<close>.
\<close>

theorem getExtra_canary_enabled:
  assumes "annotation ingress ''nginx.ingress.kubernetes.io/canary'' = ''true''"
  shows "canary (getExtra ingress) =
    (let hdr = annotation ingress ''nginx.ingress.kubernetes.io/canary-by-header'';
         hv = annotation ingress ''nginx.ingress.kubernetes.io/canary-by-header-value'';
         pat = annotation ingress ''nginx.ingress.kubernetes.io/canary-by-header-pattern'';
         w = annotation ingress ''nginx.ingress.kubernetes.io/canary-weight'';
         wt = annotation ingress ''nginx.ingress.kubernetes.io/canary-weight-total''
     in Some \<lparr>enable = True, headerKey = hdr,
          headerValue = (if pat \<noteq> [] then pat else if hv \<noteq> [] then hv
                         else if hdr \<noteq> [] then ''always'' else []),
          headerRegexMatch = (pat \<noteq> []),
          weight = (if w \<noteq> [] then Atoi w else 0),
          weightTotal = (if wt \<noteq> [] then Atoi wt else if w \<noteq> [] then 100 else 0)\<rparr>) \<and>
    (length s \<le> 18 \<and> \<not> decimalSyntax s \<longrightarrow> Atoi s = 0)"
  using assms Atoi_syntax_error [of s] by (simp add: getExtra_def Let_def)

theorem getExtra_canary_enabled_witness:
  "annotation canaryHeaderIngress ''nginx.ingress.kubernetes.io/canary'' = ''true'' \<and>
   length ''ten'' \<le> 18 \<and> \<not> decimalSyntax ''ten'' \<and>
   canary (getExtra canaryHeaderIngress) =
     Some \<lparr>enable = True, headerKey = ''X-Canary'', headerValue = ''always'',
           headerRegexMatch = False, weight = 0, weightTotal = 100\<rparr>"
proof -
  have a: "annotation canaryHeaderIngress ''nginx.ingress.kubernetes.io/canary'' = ''true''"
    by (simp add: annotation_def canaryHeaderIngress_def)
  have b: "length ''ten'' \<le> 18 \<and> \<not> decimalSyntax ''ten''"
    by (simp add: decimalSyntax_def signless_def isDigit_def less_eq_char_def)
  from a b show ?thesis
    using getExtra_canary_enabled [OF a, of "''ten''"]
    by (simp add: annotation_def canaryHeaderIngress_def Let_def)
qed

theorem getExtra_weightTotal_counterexample:
  "annotation canaryOnlyIngress ''nginx.ingress.kubernetes.io/canary'' = ''true'' \<and>
   annotations canaryOnlyIngress ''nginx.ingress.kubernetes.io/canary-weight-total'' = None \<and>
   map_option weightTotal (canary (getExtra canaryOnlyIngress)) = Some 0"
  by (simp add: getExtra_def annotation_def canaryOnlyIngress_def Let_def)

subsection \<open>Runs on the example inputs\<close>

lemmas run_defs = ingresses2GatewaysAndHTTPRoutes_def aggregate_def emptyAggregator_def
  addIngress_def addIngressRule_def resolveIngressClass_def getExtra_def annotation_def
  ruleGroupKey_def toHTTPRoutesAndGateways_def toHTTPRoute_def buildRule_def
  toHTTPRouteMatch_def toBackendRef_def getPathMatchKey_def canaryHeaderKey_def canaryOf_def
  explicitWeight_def distributeWeights_def appendAt_def insertAt_def groupListener_def
  gatewayKey_def nameFromHost_def removeLeadingSpecial_def isAlnum_def less_eq_char_def
  PathTypePrefix_def PathTypeExact_def HTTPProtocolType_def HTTPSProtocolType_def Let_def

lemmas example_defs = singlePathIngress_def implementationSpecificIngress_def
  namedPortIngress_def numberedService_def namedService_def

text \<open>
  C1, where the code departs from it. An ingress whose only path has the path type
  \<^verbatim>\<open>ImplementationSpecific\<close>: \<open>toHTTPRoute\<close> returns the error for the partition, and the
  error list of the whole run is empty, in whatever order the maps are visited. The loop
  over the rule groups appends the route's errors to a variable of its own body.
\<close>

theorem unsupportedPathType_error_lost:
  "toHTTPRoute po (snd (hd (ruleGroups (aggregate [implementationSpecificIngress])))) =
     Inr (\<lparr>routeName = ''example-com'', routeNamespace = ''default'', parentRefs = [''nginx''],
           hostnames = [''example.com''], routeRules = []\<rparr>,
          [UnsupportedPathType ''ImplementationSpecific'']) \<and>
   ingresses2GatewaysAndHTTPRoutes it [implementationSpecificIngress] =
     Inr ([\<lparr>routeName = ''example-com'', routeNamespace = ''default'', parentRefs = [''nginx''],
            hostnames = [''example.com''], routeRules = []\<rparr>],
          [\<lparr>gwNamespace = ''default'', gwName = ''nginx'', gatewayClassName = ''nginx'',
            listeners = [\<lparr>lName = ''example-com-http'', lHostname = Some ''example.com'',
                          lPort = 80, lProtocol = ''HTTP'', lTLS = None\<rparr>]\<rparr>],
          [])"
  by (simp add: run_defs example_defs)

text \<open>
  C6, where the code departs from it. An ingress whose only path names its service port:
  \<open>toHTTPRoute\<close> returns the error for the entry and leaves the backend out of the rule,
  and the error list of the whole run is empty, for the reason given at C1.
\<close>

theorem namedPort_error_lost:
  "toHTTPRoute po (snd (hd (ruleGroups (aggregate [namedPortIngress])))) =
     Inr (\<lparr>routeName = ''example-com'', routeNamespace = ''default'', parentRefs = [''nginx''],
           hostnames = [''example.com''],
           routeRules = [\<lparr>matches = [\<lparr>pmType = PathMatchPathPrefix, pmValue = ''/'',
                                        headers = []\<rparr>],
                          backendRefs = []\<rparr>]\<rparr>,
          [UnsupportedNamedPort ''http'']) \<and>
   ingresses2GatewaysAndHTTPRoutes it [namedPortIngress] =
     Inr ([\<lparr>routeName = ''example-com'', routeNamespace = ''default'', parentRefs = [''nginx''],
            hostnames = [''example.com''],
            routeRules = [\<lparr>matches = [\<lparr>pmType = PathMatchPathPrefix, pmValue = ''/'',
                                         headers = []\<rparr>],
                           backendRefs = []\<rparr>]\<rparr>],
          [\<lparr>gwNamespace = ''default'', gwName = ''nginx'', gatewayClassName = ''nginx'',
            listeners = [\<lparr>lName = ''example-com-http'', lHostname = Some ''example.com'',
                          lPort = 80, lProtocol = ''HTTP'', lTLS = None\<rparr>]\<rparr>],
          [])"
  by (simp add: run_defs example_defs)

subsection \<open>The weights of a rule\<close>

lemma sint_of_nat_small: "n < 2 ^ 31 \<Longrightarrow> sint (of_nat n :: int32) = int n"
proof -
  assume "n < 2 ^ 31"
  then have "int n < 2 ^ 31" by (metis of_nat_less_iff of_nat_numeral of_nat_power)
  then have "signed_take_bit 31 (int n) = int n"
    by (intro signed_take_bit_int_eq_self) auto
  then show ?thesis by (simp add: signed_of_nat)
qed

lemma toBackendRef_weight: "toBackendRef b = Ok br \<Longrightarrow> brWeight br = None"
  by (auto simp: toBackendRef_def split: option.splits if_splits)

lemma toBackendRef_panic: "toBackendRef b = Panic x \<Longrightarrow> x = NilPointerDereference"
  by (auto simp: toBackendRef_def split: option.splits if_splits)

lemma toHTTPRouteMatch_panic: "toHTTPRouteMatch p = Panic x \<Longrightarrow> x = NilPointerDereference"
  by (auto simp: toHTTPRouteMatch_def Let_def split: option.splits if_splits)

lemma collectBackendRefs_panic:
  "collectBackendRefs ps st = Inl x \<Longrightarrow> x = NilPointerDereference"
proof (induction ps st rule: collectBackendRefs.induct)
  case (1 st)
  then show ?case by simp
next
  case (2 p ps brs n t es)
  then show ?case
    by (auto split: result.splits option.splits dest: toBackendRef_panic)
qed

lemma collectBackendRefs_result:
  "collectBackendRefs ps (brs, n, t, es) = Inr (brs', n', t', es') \<Longrightarrow>
   map brWeight brs' = map brWeight brs @ map explicitWeight (filter resolves ps) \<and>
   n' = n + of_nat (length (explicitWeights (filter resolves ps))) \<and>
   t' = t + sum_list (explicitWeights (filter resolves ps))"
proof (induction ps arbitrary: brs n t es)
  case Nil
  then show ?case by (simp add: explicitWeights_def)
next
  case (Cons p ps)
  show ?case
  proof (cases "toBackendRef (backend (ip_path p))")
    case (Panic x)
    with Cons.prems show ?thesis by simp
  next
    case (Error err)
    with Cons.prems have "collectBackendRefs ps (brs, n, t, es @ [err]) = Inr (brs', n', t', es')"
      by simp
    from Cons.IH [OF this] Error show ?thesis by (simp add: resolves_def)
  next
    case (Ok br)
    note w = toBackendRef_weight [OF Ok]
    show ?thesis
    proof (cases "explicitWeight p")
      case None
      with Cons.prems Ok have "collectBackendRefs ps (brs @ [br], n, t, es) = Inr (brs', n', t', es')"
        by simp
      from Cons.IH [OF this] Ok None w show ?thesis
        by (simp add: resolves_def explicitWeights_def)
    next
      case (Some v)
      with Cons.prems Ok have "collectBackendRefs ps
          (brs @ [br\<lparr>brWeight := Some v\<rparr>], n + 1, t + v, es) = Inr (brs', n', t', es')"
        by simp
      from Cons.IH [OF this] Ok Some show ?thesis
        by (simp add: resolves_def explicitWeights_def)
    qed
  qed
qed

lemma distributeWeights_no_panic: "distributeWeights brs n t \<noteq> Inl x"
  by (auto simp: distributeWeights_def int32_quo_def word_sless_alt split: sum.splits)

lemma buildRule_panic:
  assumes "buildRule paths errs = Inl x"
  shows "x = NilPointerDereference \<or> (x = IndexOutOfRange \<and> paths = [])"
proof (cases paths)
  case Nil
  with assms show ?thesis by (simp add: buildRule_def)
next
  case (Cons p0 rest)
  show ?thesis
  proof (cases "toHTTPRouteMatch p0")
    case (Panic y)
    with assms Cons toHTTPRouteMatch_panic [OF Panic] show ?thesis
      by (simp add: buildRule_def)
  next
    case (Error err)
    with assms Cons show ?thesis by (simp add: buildRule_def)
  next
    case (Ok m)
    show ?thesis
    proof (cases "collectBackendRefs paths ([], 0, 0, errs)")
      case (Inl y)
      with assms Cons Ok collectBackendRefs_panic [OF Inl] show ?thesis
        by (simp add: buildRule_def del: collectBackendRefs.simps)
    next
      case (Inr st)
      obtain brs n t es where st: "st = (brs, n, t, es)" by (cases st) auto
      from assms Cons Ok Inr st distributeWeights_no_panic [of brs n t] show ?thesis
        by (simp add: buildRule_def del: collectBackendRefs.simps split: sum.splits)
    qed
  qed
qed

lemma length_explicitWeights: "length (explicitWeights ps) \<le> length ps"
  by (simp add: explicitWeights_def map_filter_def)

lemma explicitWeights_Nil: "explicitWeights ps = [] \<longleftrightarrow> (\<forall>p\<in>set ps. explicitWeight p = None)"
  by (auto simp: explicitWeights_def map_filter_def filter_empty_conv)

lemma explicitWeights_all:
  "length (explicitWeights ps) = length ps \<longleftrightarrow> (\<forall>p\<in>set ps. explicitWeight p \<noteq> None)"
proof (induction ps)
  case Nil
  then show ?case by (simp add: explicitWeights_def)
next
  case (Cons p ps)
  from length_explicitWeights [of ps] Cons show ?case
    by (auto simp: explicitWeights_def split: option.splits)
qed

lemma distributeWeights_weights:
  assumes len: "length brs < 2 ^ 31" and k: "k \<le> length brs"
    and res: "distributeWeights brs (of_nat k) t = Inr brs1"
  shows "map brWeight brs1 =
    (if 0 < k \<and> k < length brs
     then map (\<lambda>w. case w of
                 None \<Rightarrow> Some (word_of_int (sint (100 - t) sdiv
                                  sint (of_nat (length brs) - of_nat k :: int32)))
               | Some v \<Rightarrow> Some v) (map brWeight brs)
     else map brWeight brs)"
proof -
  have sk: "sint (of_nat k :: int32) = int k"
    using len k by (intro sint_of_nat_small) simp
  have sl: "sint (of_nat (length brs) :: int32) = int (length brs)"
    using len by (intro sint_of_nat_small)
  have guard: "(0 <s (of_nat k :: int32) \<and> (of_nat k :: int32) <s of_nat (length brs)) \<longleftrightarrow>
      (0 < k \<and> k < length brs)"
    by (simp add: word_sless_alt sk sl)
  show ?thesis
  proof (cases "0 < k \<and> k < length brs")
    case False
    with res guard show ?thesis by (auto simp: distributeWeights_def)
  next
    case True
    then have "(of_nat (length brs) :: int32) \<noteq> of_nat k"
      using sk sl by (metis nat_neq_iff of_nat_eq_iff)
    then have nz: "(of_nat (length brs) :: int32) - of_nat k \<noteq> 0" by simp
    from res guard True nz show ?thesis
      by (auto simp: distributeWeights_def int32_quo_def split: option.splits)
  qed
qed

lemma sint_word_of_int_small:
  "- (2 ^ 31) \<le> k \<Longrightarrow> k < 2 ^ 31 \<Longrightarrow> sint (word_of_int k :: int32) = k"
  by (simp add: signed_of_int signed_take_bit_int_eq_self)

lemma div_le_self_int: "0 < (b::int) \<Longrightarrow> 0 \<le> a \<Longrightarrow> a div b \<le> a"
  by (metis div_by_1 int_one_le_iff_zero_less zdiv_mono2 zero_less_one)

lemma evenShare_int:
  fixes ws :: "int32 list"
  assumes k: "length ws < n" and n: "n < 2 ^ 31"
    and lo: "- (2 ^ 31) \<le> 100 - (\<Sum>w\<leftarrow>ws. sint w)" and hi: "100 - (\<Sum>w\<leftarrow>ws. sint w) < 2 ^ 31"
  shows "sint (evenShare ws n) = (100 - (\<Sum>w\<leftarrow>ws. sint w)) sdiv (int n - int (length ws))"
proof -
  let ?a = "100 - (\<Sum>w\<leftarrow>ws. sint w)"
  let ?b = "int n - int (length ws)"
  have "(100 - sum_list ws :: int32) = word_of_int ?a"
    by (induction ws) simp_all
  then have a: "sint (100 - sum_list ws :: int32) = ?a"
    using lo hi by (simp only: sint_word_of_int_small)
  have "(of_nat n - of_nat (length ws) :: int32) = of_nat (n - length ws)"
    using k by simp
  moreover have "n - length ws < 2 ^ 31" using n by simp
  ultimately have b: "sint (of_nat n - of_nat (length ws) :: int32) = ?b"
    using k by (simp only: sint_of_nat_small)
  have pos: "0 < ?b" using k by simp
  have q: "?a sdiv ?b = sgn ?a * (\<bar>?a\<bar> div ?b)"
    using pos by (simp add: signed_divide_int_def)
  have "\<bar>?a\<bar> div ?b \<le> \<bar>?a\<bar>"
    using pos by (intro div_le_self_int) simp_all
  moreover have "0 \<le> \<bar>?a\<bar> div ?b" using pos by (simp add: pos_imp_zdiv_nonneg_iff)
  ultimately have "(0 \<le> ?a \<longrightarrow> 0 \<le> ?a sdiv ?b \<and> ?a sdiv ?b \<le> ?a) \<and>
      (?a < 0 \<longrightarrow> ?a \<le> ?a sdiv ?b \<and> ?a sdiv ?b \<le> 0)"
    unfolding q by (auto simp: sgn_if)
  with lo hi have "- (2 ^ 31) \<le> ?a sdiv ?b \<and> ?a sdiv ?b < 2 ^ 31" by linarith
  then have "sint (word_of_int (?a sdiv ?b) :: int32) = ?a sdiv ?b"
    by (simp only: sint_word_of_int_small)
  then show ?thesis by (simp only: evenShare_def a b)
qed

lemma explicitWeight_canaryWeight:
  "explicitWeight p = (if canaryWeight p \<noteq> 0 then Some (word_of_int (canaryWeight p)) else None)"
  by (simp add: explicitWeight_def canaryWeight_def split: option.splits)

lemma length_explicitWeights_canary:
  "length (explicitWeights ps) = length (filter (\<lambda>p. canaryWeight p \<noteq> 0) ps)"
  by (induction ps) (simp_all add: explicitWeights_def explicitWeight_canaryWeight)

lemma sum_explicitWeights_canary:
  "list_all (\<lambda>p. - (2 ^ 31) \<le> canaryWeight p \<and> canaryWeight p < 2 ^ 31) ps \<Longrightarrow>
   (\<Sum>w\<leftarrow>explicitWeights ps. sint w) = (\<Sum>p\<leftarrow>ps. canaryWeight p)"
  by (induction ps)
    (simp_all add: explicitWeights_def explicitWeight_canaryWeight sint_word_of_int_small)

lemma evenShare_integerShare:
  assumes "int32Weights ps" and "length (explicitWeights ps) < length ps" and "length ps < 2 ^ 31"
  shows "sint (evenShare (explicitWeights ps) (length ps)) = integerShare ps"
proof -
  from assms(1) have r: "list_all (\<lambda>p. - (2 ^ 31) \<le> canaryWeight p \<and> canaryWeight p < 2 ^ 31) ps"
    by (simp add: int32Weights_def)
  note s = sum_explicitWeights_canary [OF r]
  from assms(1) have "- (2 ^ 31) \<le> 100 - (\<Sum>w\<leftarrow>explicitWeights ps. sint w)"
    and "100 - (\<Sum>w\<leftarrow>explicitWeights ps. sint w) < 2 ^ 31"
    unfolding s by (simp_all add: int32Weights_def)
  from evenShare_int [OF assms(2) assms(3) this] show ?thesis
    unfolding s length_explicitWeights_canary integerShare_def .
qed

lemma integer_weights:
  assumes "int32Weights ps"
  shows "map (map_option sint \<circ> (\<lambda>p. case explicitWeight p of Some w \<Rightarrow> Some w | None \<Rightarrow> Some v)) ps =
    map (\<lambda>p. Some (if canaryWeight p = 0 then sint v else canaryWeight p)) ps"
proof -
  from assms have "\<forall>p\<in>set ps. - (2 ^ 31) \<le> canaryWeight p \<and> canaryWeight p < 2 ^ 31"
    by (simp add: int32Weights_def list_all_iff)
  then show ?thesis
    by (auto simp: explicitWeight_canaryWeight sint_word_of_int_small)
qed

text \<open>
  C3, as the code has it. The rule of a partition never divides by zero. When it is
  built, from fewer than \<open>2\<^sup>3\<^sup>1\<close> paths, take the paths whose backend resolves, in their
  order: they are the rule's backends. The explicit weight of a backend is its canary
  weight, when that is not \<open>0\<close>, truncated to an \<^verbatim>\<open>int32\<close>. If no backend has an explicit
  weight, no backend has a weight. If some but not all have one, each of the others gets
  \<open>evenShare\<close>: 100 minus the sum of the explicit weights, divided by the number of
  backends minus the number of weighted ones, in the wrapping arithmetic of \<^verbatim>\<open>int32\<close> with
  the quotient truncated towards zero, and those with an explicit weight keep it. When
  every canary weight is an \<^verbatim>\<open>int32\<close> and 100 minus their sum is one too, these weights
  are, as integers, the canary weights and the integer quotient
  \<open>(100 - sum) / (count - weighted)\<close>. If all backends have an explicit weight, each
  keeps its own. Weights \<open>[30, none, none]\<close> give 35 to each of the two others, and
  \<open>[50, none]\<close> gives 50 to the other.
\<close>

theorem buildRule_weights:
  "buildRule paths errs \<noteq> Inl IntegerDivideByZero \<and>
   (buildRule paths errs = Inr (Some r, errs') \<and> length paths < 2 ^ 31 \<longrightarrow>
      (let ps = filter resolves paths; ws = explicitWeights ps
       in ((\<forall>p\<in>set ps. explicitWeight p = None) \<longrightarrow>
             map brWeight (backendRefs r) = map (\<lambda>p. None) ps) \<and>
          ((\<exists>p\<in>set ps. explicitWeight p \<noteq> None) \<and> (\<exists>p\<in>set ps. explicitWeight p = None) \<longrightarrow>
             map brWeight (backendRefs r) =
               map (\<lambda>p. case explicitWeight p of
                          Some w \<Rightarrow> Some w
                        | None \<Rightarrow> Some (evenShare ws (length ps))) ps \<and>
             (int32Weights ps \<longrightarrow>
                map (map_option sint \<circ> brWeight) (backendRefs r) =
                  map (\<lambda>p. Some (if canaryWeight p = 0 then integerShare ps
                                  else canaryWeight p)) ps)) \<and>
          ((\<forall>p\<in>set ps. explicitWeight p \<noteq> None) \<longrightarrow>
             map brWeight (backendRefs r) = map explicitWeight ps))) \<and>
   ruleWeights (buildRule [weightedPath ''a'' 30, weightedPath ''b'' 0, weightedPath ''c'' 0] [])
     = [Some 30, Some 35, Some 35] \<and>
   ruleWeights (buildRule [weightedPath ''a'' 50, weightedPath ''b'' 0] []) = [Some 50, Some 50]"
proof (intro conjI impI)
  show "buildRule paths errs \<noteq> Inl IntegerDivideByZero"
    using buildRule_panic [of paths errs IntegerDivideByZero] by auto
next
  show "ruleWeights (buildRule [weightedPath ''a'' 30, weightedPath ''b'' 0, weightedPath ''c'' 0] [])
     = [Some 30, Some 35, Some 35]"
    by (simp add: ruleWeights_def weightedPath_def numberedService_def buildRule_def
        toHTTPRouteMatch_def toBackendRef_def explicitWeight_def canaryOf_def
        distributeWeights_def int32_quo_def PathTypePrefix_def PathTypeExact_def signed_divide_int_def word_sless_alt)
next
  show "ruleWeights (buildRule [weightedPath ''a'' 50, weightedPath ''b'' 0] []) = [Some 50, Some 50]"
    by (simp add: ruleWeights_def weightedPath_def numberedService_def buildRule_def
        toHTTPRouteMatch_def toBackendRef_def explicitWeight_def canaryOf_def
        distributeWeights_def int32_quo_def PathTypePrefix_def PathTypeExact_def signed_divide_int_def word_sless_alt)
next
  assume a: "buildRule paths errs = Inr (Some r, errs') \<and> length paths < 2 ^ 31"
  define ps where "ps = filter resolves paths"
  define ws where "ws = explicitWeights ps"
  from a obtain brs n t where
    coll: "collectBackendRefs paths ([], 0, 0, errs) = Inr (brs, n, t, errs')" and
    dist: "distributeWeights brs n t = Inr (backendRefs r)"
    by (auto simp: buildRule_def simp del: collectBackendRefs.simps
        split: list.splits result.splits sum.splits prod.splits)
  from collectBackendRefs_result [OF coll]
  have w: "map brWeight brs = map explicitWeight ps" and n: "n = of_nat (length ws)"
    and t: "t = sum_list ws"
    by (simp_all add: ps_def ws_def)
  from w have lb: "length brs = length ps" by (rule map_eq_imp_length_eq)
  have lps: "length ps \<le> length paths" by (simp add: ps_def)
  have lws: "length ws \<le> length ps" by (simp add: ws_def length_explicitWeights)
  have small: "length brs < 2 ^ 31" using a lb lps by simp
  note d = distributeWeights_weights [OF small, of "length ws" t "backendRefs r"]
  have res: "map brWeight (backendRefs r) =
    (if 0 < length ws \<and> length ws < length ps
     then map (\<lambda>p. case explicitWeight p of
                 Some v \<Rightarrow> Some v
               | None \<Rightarrow> Some (evenShare ws (length ps))) ps
     else map explicitWeight ps)"
    using d dist lws unfolding n lb w t
    by (auto simp: evenShare_def option.case_eq_if)
  have none: "(\<forall>p\<in>set ps. explicitWeight p = None) \<longleftrightarrow> length ws = 0"
    using explicitWeights_Nil [of ps] by (simp add: ws_def)
  have all: "(\<forall>p\<in>set ps. explicitWeight p \<noteq> None) \<longleftrightarrow> length ws = length ps"
    using explicitWeights_all [of ps] by (simp add: ws_def)
  have c1: "(\<forall>p\<in>set ps. explicitWeight p = None) \<longrightarrow>
      map brWeight (backendRefs r) = map (\<lambda>p. None) ps"
    using res none by auto
  have c2: "(\<exists>p\<in>set ps. explicitWeight p \<noteq> None) \<and> (\<exists>p\<in>set ps. explicitWeight p = None) \<longrightarrow>
      map brWeight (backendRefs r) =
        map (\<lambda>p. case explicitWeight p of
                   Some w \<Rightarrow> Some w
                 | None \<Rightarrow> Some (evenShare ws (length ps))) ps \<and>
      (int32Weights ps \<longrightarrow>
         map (map_option sint \<circ> brWeight) (backendRefs r) =
           map (\<lambda>p. Some (if canaryWeight p = 0 then integerShare ps else canaryWeight p)) ps)"
  proof (intro impI conjI)
    assume h: "(\<exists>p\<in>set ps. explicitWeight p \<noteq> None) \<and> (\<exists>p\<in>set ps. explicitWeight p = None)"
    from h none have "length ws \<noteq> 0" by auto
    moreover from h all have "length ws \<noteq> length ps" by auto
    ultimately have "length ws \<noteq> 0 \<and> length ws \<noteq> length ps" by simp
    with lws have k: "0 < length ws \<and> length ws < length ps" by simp
    with res show m: "map brWeight (backendRefs r) =
        map (\<lambda>p. case explicitWeight p of
                   Some w \<Rightarrow> Some w
                 | None \<Rightarrow> Some (evenShare ws (length ps))) ps"
      by simp
    assume i: "int32Weights ps"
    have lp: "length ps < 2 ^ 31" using small lb by simp
    from k have "length (explicitWeights ps) < length ps" by (simp add: ws_def)
    from evenShare_integerShare [OF i this lp]
    have e: "sint (evenShare ws (length ps)) = integerShare ps" by (simp add: ws_def)
    have "map (map_option sint \<circ> brWeight) (backendRefs r) =
        map (map_option sint) (map brWeight (backendRefs r))"
      by simp
    also have "\<dots> = map (map_option sint \<circ>
        (\<lambda>p. case explicitWeight p of Some w \<Rightarrow> Some w
              | None \<Rightarrow> Some (evenShare ws (length ps)))) ps"
      unfolding m by simp
    also have "\<dots> = map (\<lambda>p. Some (if canaryWeight p = 0 then integerShare ps
        else canaryWeight p)) ps"
      unfolding integer_weights [OF i] e ..
    finally show "map (map_option sint \<circ> brWeight) (backendRefs r) =
        map (\<lambda>p. Some (if canaryWeight p = 0 then integerShare ps else canaryWeight p)) ps" .
  qed
  have c3: "(\<forall>p\<in>set ps. explicitWeight p \<noteq> None) \<longrightarrow>
      map brWeight (backendRefs r) = map explicitWeight ps"
    using res all by auto
  from c1 c2 c3 show "let ps = filter resolves paths; ws = explicitWeights ps
       in ((\<forall>p\<in>set ps. explicitWeight p = None) \<longrightarrow>
             map brWeight (backendRefs r) = map (\<lambda>p. None) ps) \<and>
          ((\<exists>p\<in>set ps. explicitWeight p \<noteq> None) \<and> (\<exists>p\<in>set ps. explicitWeight p = None) \<longrightarrow>
             map brWeight (backendRefs r) =
               map (\<lambda>p. case explicitWeight p of
                          Some w \<Rightarrow> Some w
                        | None \<Rightarrow> Some (evenShare ws (length ps))) ps \<and>
             (int32Weights ps \<longrightarrow>
                map (map_option sint \<circ> brWeight) (backendRefs r) =
                  map (\<lambda>p. Some (if canaryWeight p = 0 then integerShare ps
                                  else canaryWeight p)) ps)) \<and>
          ((\<forall>p\<in>set ps. explicitWeight p \<noteq> None) \<longrightarrow>
             map brWeight (backendRefs r) = map explicitWeight ps)"
    unfolding Let_def ps_def [symmetric] ws_def [symmetric] by blast
qed

lemmas weight_example_defs = weightedPath_def weightedRef_def prefixRule_def numberedService_def
  buildRule_def toHTTPRouteMatch_def toBackendRef_def explicitWeight_def canaryOf_def
  distributeWeights_def int32_quo_def PathTypePrefix_def PathTypeExact_def
  signed_divide_int_def word_sless_alt resolves_def explicitWeights_def evenShare_def

theorem buildRule_weights_counterexample:
  "list_ex (\<lambda>p. canaryWeight p \<noteq> 0) truncatedWeights \<and>
   list_ex (\<lambda>p. canaryWeight p = 0) truncatedWeights \<and>
   integerShare truncatedWeights = - 4294967196 \<and>
   map (map_option sint) (ruleWeights (buildRule truncatedWeights [])) = [Some 0, Some 100] \<and>
   list_all (\<lambda>p. - (2 ^ 31) \<le> canaryWeight p \<and> canaryWeight p < 2 ^ 31) wrappingWeights \<and>
   integerShare wrappingWeights = - 4294967194 \<and>
   map (map_option sint) (ruleWeights (buildRule wrappingWeights [])) =
     [Some 2147483647, Some 2147483647, Some 102]"
  by (simp add: truncatedWeights_def wrappingWeights_def canaryWeight_def integerShare_def
      ruleWeights_def weight_example_defs)

theorem buildRule_weights_witness:
  "buildRule mixedWeights [] =
     Inr (Some (prefixRule [weightedRef ''a'' (Some 30), weightedRef ''b'' (Some 35),
                            weightedRef ''c'' (Some 35)]), []) \<and>
   length mixedWeights < 2 ^ 31 \<and>
   list_ex (\<lambda>p. explicitWeight p \<noteq> None) (filter resolves mixedWeights) \<and>
   list_ex (\<lambda>p. explicitWeight p = None) (filter resolves mixedWeights) \<and>
   explicitWeights (filter resolves mixedWeights) = [30] \<and>
   evenShare [30] 3 = 35 \<and>
   int32Weights (filter resolves mixedWeights) \<and>
   integerShare (filter resolves mixedWeights) = 35 \<and>
   map brWeight (backendRefs (prefixRule [weightedRef ''a'' (Some 30),
       weightedRef ''b'' (Some 35), weightedRef ''c'' (Some 35)])) =
     [Some 30, Some 35, Some 35] \<and>
   map (map_option sint \<circ> brWeight) (backendRefs (prefixRule [weightedRef ''a'' (Some 30),
       weightedRef ''b'' (Some 35), weightedRef ''c'' (Some 35)])) =
     [Some 30, Some 35, Some 35] \<and>
   buildRule fullWeights [] =
     Inr (Some (prefixRule [weightedRef ''a'' (Some 60), weightedRef ''b'' (Some 40)]), []) \<and>
   list_all (\<lambda>p. explicitWeight p \<noteq> None) (filter resolves fullWeights) \<and>
   map brWeight (backendRefs (prefixRule [weightedRef ''a'' (Some 60),
       weightedRef ''b'' (Some 40)])) = [Some 60, Some 40] \<and>
   buildRule noWeights [] =
     Inr (Some (prefixRule [weightedRef ''a'' None, weightedRef ''b'' None]), []) \<and>
   list_all (\<lambda>p. explicitWeight p = None) (filter resolves noWeights) \<and>
   map brWeight (backendRefs (prefixRule [weightedRef ''a'' None, weightedRef ''b'' None])) =
     [None, None]"
proof -
  let ?rm = "prefixRule [weightedRef ''a'' (Some 30), weightedRef ''b'' (Some 35),
                         weightedRef ''c'' (Some 35)]"
  let ?ra = "prefixRule [weightedRef ''a'' (Some 60), weightedRef ''b'' (Some 40)]"
  let ?rn = "prefixRule [weightedRef ''a'' None, weightedRef ''b'' None]"
  have m: "buildRule mixedWeights [] = Inr (Some ?rm, []) \<and> length mixedWeights < 2 ^ 31"
    and mx: "list_ex (\<lambda>p. explicitWeight p \<noteq> None) (filter resolves mixedWeights) \<and>
       list_ex (\<lambda>p. explicitWeight p = None) (filter resolves mixedWeights)"
    and mw: "explicitWeights (filter resolves mixedWeights) = [30]"
    and ml: "length (filter resolves mixedWeights) = 3"
    by (simp_all add: mixedWeights_def weight_example_defs)
  have mi: "int32Weights (filter resolves mixedWeights)"
    and ms: "integerShare (filter resolves mixedWeights) = 35"
    and mc: "map canaryWeight (filter resolves mixedWeights) = [30, 0, 0]"
    by (simp_all add: mixedWeights_def int32Weights_def integerShare_def canaryWeight_def
        weight_example_defs)
  have a: "buildRule fullWeights [] = Inr (Some ?ra, []) \<and> length fullWeights < 2 ^ 31"
    and ax: "list_all (\<lambda>p. explicitWeight p \<noteq> None) (filter resolves fullWeights)"
    by (simp_all add: fullWeights_def weight_example_defs)
  have n: "buildRule noWeights [] = Inr (Some ?rn, []) \<and> length noWeights < 2 ^ 31"
    and nx: "list_all (\<lambda>p. explicitWeight p = None) (filter resolves noWeights)"
    by (simp_all add: noWeights_def weight_example_defs)
  have e: "evenShare [30] 3 = 35"
    by (simp add: evenShare_def signed_divide_int_def)
  note t = buildRule_weights [of mixedWeights "[]" ?rm "[]"]
  from t m mx have both: "map brWeight (backendRefs ?rm) =
      map (\<lambda>p. case explicitWeight p of
                 Some w \<Rightarrow> Some w
               | None \<Rightarrow> Some (evenShare (explicitWeights (filter resolves mixedWeights))
                                  (length (filter resolves mixedWeights))))
        (filter resolves mixedWeights) \<and>
      (int32Weights (filter resolves mixedWeights) \<longrightarrow>
        map (map_option sint \<circ> brWeight) (backendRefs ?rm) =
          map (\<lambda>p. Some (if canaryWeight p = 0 then integerShare (filter resolves mixedWeights)
                          else canaryWeight p)) (filter resolves mixedWeights))"
    unfolding Let_def list_ex_iff by blast
  then have 1: "map brWeight (backendRefs ?rm) = [Some 30, Some 35, Some 35]"
    unfolding mw ml e
    by (simp add: mixedWeights_def weightedPath_def explicitWeight_def canaryOf_def
        resolves_def toBackendRef_def numberedService_def)
  from both mi have "map (map_option sint \<circ> brWeight) (backendRefs ?rm) =
      map ((\<lambda>w. Some (if w = 0 then 35 else w)) \<circ> canaryWeight) (filter resolves mixedWeights)"
    unfolding ms by (simp add: comp_def)
  then have 0: "map (map_option sint \<circ> brWeight) (backendRefs ?rm) =
      [Some 30, Some 35, Some 35]"
    unfolding map_map [symmetric] mc by simp
  from a ax buildRule_weights [of fullWeights "[]" ?ra "[]"]
  have "map brWeight (backendRefs ?ra) = map explicitWeight (filter resolves fullWeights)"
    unfolding Let_def list_all_iff by blast
  then have 2: "map brWeight (backendRefs ?ra) = [Some 60, Some 40]"
    by (simp add: fullWeights_def weightedPath_def explicitWeight_def canaryOf_def
        resolves_def toBackendRef_def numberedService_def)
  from n nx buildRule_weights [of noWeights "[]" ?rn "[]"]
  have "map brWeight (backendRefs ?rn) = map (\<lambda>p. None) (filter resolves noWeights)"
    unfolding Let_def list_all_iff by blast
  then have 3: "map brWeight (backendRefs ?rn) = [None, None]"
    by (simp add: noWeights_def weightedPath_def resolves_def toBackendRef_def
        numberedService_def)
  from m mx mw e mi ms 0 1 a ax 2 n nx 3 show ?thesis by blast
qed

subsection \<open>Maps that collect lists\<close>

lemma mset_insertAt: "mset (insertAt i x xs) = add_mset x (mset xs)"
proof -
  have "mset (insertAt i x xs) = add_mset x (mset (take i xs @ drop i xs))"
    unfolding insertAt_def by (simp del: append_take_drop_id)
  then show ?thesis by simp
qed

lemma mset_rangeOrder: "mset (rangeOrder s xs) = mset xs"
  by (induction xs arbitrary: s) (simp_all add: mset_insertAt)

lemma set_rangeOrder: "set (rangeOrder s xs) = set xs"
  using mset_rangeOrder [of s xs] by (metis set_mset_mset)

lemma appendAll_append: "appendAll (xs @ ys) m = appendAll ys (appendAll xs m)"
  by (induction xs arbitrary: m) auto

lemma map_of_appendAt:
  "map_of (appendAt k v m) k' =
     (if k' = k then Some ((case map_of m k of None \<Rightarrow> [] | Some vs \<Rightarrow> vs) @ [v])
      else map_of m k')"
  by (simp add: appendAt_def update_conv')

lemma map_of_appendAll:
  "map_of (appendAll kvs m) k =
     (if entriesFor k kvs = [] then map_of m k
      else Some ((case map_of m k of None \<Rightarrow> [] | Some vs \<Rightarrow> vs) @ entriesFor k kvs))"
proof (induction kvs arbitrary: m)
  case Nil
  then show ?case by (simp add: entriesFor_def)
next
  case (Cons kv kvs)
  obtain k' v where kv: "kv = (k', v)" by (cases kv) auto
  show ?case
    unfolding kv appendAll.simps Cons.IH map_of_appendAt
    by (auto simp: entriesFor_def split: option.splits)
qed

lemma distinct_appendAll:
  "distinct (map fst m) \<Longrightarrow> distinct (map fst (appendAll kvs m))"
proof (induction kvs arbitrary: m)
  case Nil
  then show ?case by simp
next
  case (Cons kv kvs)
  obtain k v where kv: "kv = (k, v)" by (cases kv) auto
  from Cons.prems have "distinct (map fst (appendAt k v m))"
    by (simp add: appendAt_def distinct_update)
  with Cons.IH show ?case by (simp add: kv)
qed

lemma keys_appendAll: "fst ` set (appendAll kvs m) = fst ` set m \<union> fst ` set kvs"
proof (induction kvs arbitrary: m)
  case Nil
  then show ?case by simp
next
  case (Cons kv kvs)
  obtain k v where kv: "kv = (k, v)" by (cases kv) auto
  show ?case unfolding kv appendAll.simps Cons.IH
    by (auto simp: appendAt_def dom_update)
qed

lemma appendAll_entry:
  "(k, vs) \<in> set (appendAll kvs []) \<longleftrightarrow> vs = entriesFor k kvs \<and> vs \<noteq> []"
proof -
  have d: "distinct (map fst (appendAll kvs ([] :: 'a list gomap)))"
    by (rule distinct_appendAll) simp
  have "(k, vs) \<in> set (appendAll kvs []) \<longleftrightarrow> map_of (appendAll kvs []) k = Some vs"
    using d by simp
  then show ?thesis by (auto simp: map_of_appendAll)
qed

lemma addPaths_appendAll:
  "addPaths e ps m = appendAll (keyed (map (\<lambda>p. \<lparr>ip_path = p, ip_extra = e\<rparr>) ps)) m"
  by (induction ps arbitrary: m) (simp_all add: keyed_def Let_def)

lemma groupPaths_panic:
  "\<exists>ir\<in>set irs. http (ir_rule ir) = None \<Longrightarrow> groupPaths irs m = Inl NilPointerDereference"
  by (induction irs arbitrary: m) (auto split: option.splits)

lemma groupPaths_result:
  "\<forall>ir\<in>set irs. http (ir_rule ir) \<noteq> None \<Longrightarrow>
   groupPaths irs m = Inr (appendAll (keyed (concat (map pathsOfRule irs))) m)"
proof (induction irs arbitrary: m)
  case Nil
  then show ?case by (simp add: keyed_def)
next
  case (Cons ir irs)
  then obtain ps where ps: "http (ir_rule ir) = Some ps" by auto
  have "keyed (concat (map pathsOfRule (ir # irs))) =
      keyed (map (\<lambda>p. \<lparr>ip_path = p, ip_extra = ir_extra ir\<rparr>) ps) @
      keyed (concat (map pathsOfRule irs))"
    by (simp add: keyed_def pathsOfRule_def ps)
  with Cons ps show ?case
    by (simp add: addPaths_appendAll appendAll_append)
qed

subsection \<open>Nil pointers in toHTTPRoute\<close>

lemma buildRule_first_untyped:
  "pathType (ip_path p0) = None \<Longrightarrow> buildRule (p0 # rest) errs = Inl NilPointerDereference"
  by (simp add: buildRule_def toHTTPRouteMatch_def)

lemma buildRules_panics:
  "(k, paths) \<in> set parts \<Longrightarrow> \<forall>errs. \<exists>x. buildRule paths errs = Inl x \<Longrightarrow>
   \<exists>y. buildRules parts st = Inl y"
proof (induction parts st rule: buildRules.induct)
  case (1 st)
  then show ?case by simp
next
  case (2 pmKey ps rest rs errors)
  show ?case
  proof (cases "buildRule ps errors")
    case (Inl x)
    then show ?thesis by simp
  next
    case (Inr res)
    obtain r errors1 where res: "res = (r, errors1)" by (cases res) auto
    have ne: "(k, paths) \<noteq> (pmKey, ps)"
    proof
      assume "(k, paths) = (pmKey, ps)"
      with "2.prems"(2) obtain x where "buildRule ps errors = Inl x" by blast
      with Inr show False by simp
    qed
    with "2.prems"(1) have mem: "(k, paths) \<in> set rest" by auto
    show ?thesis
    proof (cases r)
      case None
      from "2.IH"(1) [OF Inr res [symmetric] None mem "2.prems"(2)] Inr res None
      show ?thesis by simp
    next
      case (Some hr)
      from "2.IH"(2) [OF Inr res [symmetric] Some mem "2.prems"(2)] Inr res Some
      show ?thesis by simp
    qed
  qed
qed

lemma buildRules_panic_kind:
  "buildRules parts st = Inl x \<Longrightarrow> \<forall>(k, paths)\<in>set parts. paths \<noteq> [] \<Longrightarrow>
   x = NilPointerDereference"
proof (induction parts st rule: buildRules.induct)
  case (1 st)
  then show ?case by simp
next
  case (2 pmKey ps rest rs errors)
  show ?case
  proof (cases "buildRule ps errors")
    case (Inl y)
    with "2.prems" buildRule_panic [OF Inl] show ?thesis by auto
  next
    case (Inr res)
    obtain r errors1 where res: "res = (r, errors1)" by (cases res) auto
    from "2.prems"(2) have rest: "\<forall>(k, paths)\<in>set rest. paths \<noteq> []" by simp
    show ?thesis
    proof (cases r)
      case None
      from "2.prems"(1) Inr res None
      have "buildRules rest (rs, errors1) = Inl x" by simp
      from "2.IH"(1) [OF Inr res [symmetric] None this rest] show ?thesis .
    next
      case (Some hr)
      from "2.prems"(1) Inr res Some
      have "buildRules rest (rs @ [hr], errors1) = Inl x" by simp
      from "2.IH"(2) [OF Inr res [symmetric] Some this rest] show ?thesis .
    qed
  qed
qed

lemma entriesFor_keyed: "entriesFor k (keyed ips) = filter (\<lambda>q. getPathMatchKey q = k) ips"
  by (induction ips) (auto simp: entriesFor_def keyed_def)

lemma find_filter_hd: "List.find P xs = Some x \<Longrightarrow> \<exists>rest. filter P xs = x # rest"
  by (induction xs) (auto split: if_splits)

lemma toHTTPRoute_groups:
  assumes "\<forall>ir\<in>set (rg_rules rg). http (ir_rule ir) \<noteq> None"
  shows "toHTTPRoute po rg =
    (case buildRules (rangeOrder po (appendAll (keyed (ingressPaths rg)) [])) ([], []) of
       Inl x \<Rightarrow> Inl x
     | Inr (rs, errors) \<Rightarrow>
         Inr (\<lparr>routeName = nameFromHost (rg_host rg), routeNamespace = rg_namespace rg,
               parentRefs = (if rg_ingressClass rg \<noteq> [] then [rg_ingressClass rg] else []),
               hostnames = (if rg_host rg \<noteq> [] then [rg_host rg] else []),
               routeRules = rs\<rparr>, errors))"
  by (simp add: toHTTPRoute_def groupPaths_result [OF assms] ingressPaths_def
      split: sum.splits prod.splits)

lemma partitions_nonempty:
  "\<forall>(k, paths)\<in>set (rangeOrder po (appendAll kvs [])). paths \<noteq> []"
  by (auto simp: set_rangeOrder appendAll_entry)

lemma toHTTPRoute_first_untyped:
  assumes f: "List.find (\<lambda>q. getPathMatchKey q = k) (ingressPaths rg) = Some ip"
    and n: "pathType (ip_path ip) = None"
  shows "toHTTPRoute po rg = Inl NilPointerDereference"
proof (cases "\<forall>ir\<in>set (rg_rules rg). http (ir_rule ir) \<noteq> None")
  case False
  then show ?thesis by (simp add: toHTTPRoute_def groupPaths_panic)
next
  case True
  let ?parts = "rangeOrder po (appendAll (keyed (ingressPaths rg)) [])"
  from find_filter_hd [OF f] obtain rest where
    e: "entriesFor k (keyed (ingressPaths rg)) = ip # rest"
    by (auto simp: entriesFor_keyed)
  then have mem: "(k, ip # rest) \<in> set ?parts"
    by (simp add: set_rangeOrder appendAll_entry)
  have "\<forall>errs. \<exists>x. buildRule (ip # rest) errs = Inl x"
    using buildRule_first_untyped [OF n] by blast
  from buildRules_panics [OF mem this] obtain y where
    y: "buildRules ?parts ([], []) = Inl y" by blast
  from buildRules_panic_kind [OF y partitions_nonempty]
  have "y = NilPointerDereference" .
  with y show ?thesis by (simp add: toHTTPRoute_groups [OF True])
qed

lemma toBackendRef_hasTarget: "hasTarget ib \<Longrightarrow> toBackendRef ib \<noteq> Panic x"
  by (auto simp: hasTarget_def toBackendRef_def split: option.splits)

lemma collectBackendRefs_total:
  "\<forall>p\<in>set ps. hasTarget (backend (ip_path p)) \<Longrightarrow> \<exists>res. collectBackendRefs ps st = Inr res"
proof (induction ps st rule: collectBackendRefs.induct)
  case (1 st)
  show ?case by (cases st rule: prod_cases4) simp
next
  case (2 p ps brs n t es)
  from "2.prems" have h: "hasTarget (backend (ip_path p))"
    and rest: "\<forall>p\<in>set ps. hasTarget (backend (ip_path p))" by simp_all
  show ?case
  proof (cases "toBackendRef (backend (ip_path p))")
    case (Panic x)
    with toBackendRef_hasTarget [OF h, of x] show ?thesis by simp
  next
    case (Error err)
    from "2.IH"(1) [OF Error rest] Error show ?thesis by simp
  next
    case (Ok br)
    show ?thesis
    proof (cases "explicitWeight p")
      case None
      from "2.IH"(2) [OF Ok None rest] Ok None show ?thesis by simp
    next
      case (Some w)
      from "2.IH"(3) [OF Ok Some rest] Ok Some show ?thesis by simp
    qed
  qed
qed

lemma buildRule_total:
  assumes "pathType (ip_path p0) \<noteq> None"
    and "\<forall>p\<in>set (p0 # rest). hasTarget (backend (ip_path p))"
  shows "\<exists>res. buildRule (p0 # rest) errs = Inr res"
proof (cases "toHTTPRouteMatch p0")
  case (Panic x)
  with assms(1) show ?thesis
    by (auto simp: toHTTPRouteMatch_def Let_def split: option.splits if_splits)
next
  case (Error err)
  then show ?thesis by (simp add: buildRule_def)
next
  case (Ok m)
  from collectBackendRefs_total [OF assms(2)] obtain st where
    c: "collectBackendRefs (p0 # rest) ([], 0, 0, errs) = Inr st" by blast
  obtain brs n t es where st: "st = (brs, n, t, es)" by (cases st) auto
  from distributeWeights_no_panic [of brs n t] obtain brs1 where
    "distributeWeights brs n t = Inr brs1" by (cases "distributeWeights brs n t") auto
  with Ok c st show ?thesis
    by (simp add: buildRule_def del: collectBackendRefs.simps)
qed

lemma buildRules_total:
  "\<forall>(k, paths)\<in>set parts. \<forall>errs. \<exists>res. buildRule paths errs = Inr res \<Longrightarrow>
   \<exists>res. buildRules parts st = Inr res"
proof (induction parts st rule: buildRules.induct)
  case (1 st)
  then show ?case by simp
next
  case (2 pmKey ps rest rs errors)
  from "2.prems" have "\<forall>errs. \<exists>res. buildRule ps errs = Inr res" by simp
  then obtain res where b: "buildRule ps errors = Inr res" by blast
  obtain r errors1 where res: "res = (r, errors1)" by (cases res) auto
  from "2.prems" have rest:
    "\<forall>(k, paths)\<in>set rest. \<forall>errs. \<exists>res. buildRule paths errs = Inr res" by simp
  show ?case
  proof (cases r)
    case None
    from "2.IH"(1) [OF b res [symmetric] None rest] b res None show ?thesis by simp
  next
    case (Some hr)
    from "2.IH"(2) [OF b res [symmetric] Some rest] b res Some show ?thesis by simp
  qed
qed

lemma find_hd_filter: "filter P xs = x # rest \<Longrightarrow> List.find P xs = Some x"
  by (induction xs) (auto split: if_splits)

lemma toHTTPRoute_total:
  assumes h: "\<forall>ir\<in>set (rg_rules rg). http (ir_rule ir) \<noteq> None"
    and t: "\<forall>k ip. List.find (\<lambda>q. getPathMatchKey q = k) (ingressPaths rg) = Some ip \<longrightarrow>
         pathType (ip_path ip) \<noteq> None"
    and b: "\<forall>ip\<in>set (ingressPaths rg). hasTarget (backend (ip_path ip))"
  shows "\<exists>res. toHTTPRoute po rg = Inr res"
proof -
  let ?parts = "rangeOrder po (appendAll (keyed (ingressPaths rg)) [])"
  have "\<forall>(k, paths)\<in>set ?parts. \<forall>errs. \<exists>res. buildRule paths errs = Inr res"
  proof (clarify)
    fix k paths errs
    assume "(k, paths) \<in> set ?parts"
    then have "paths = entriesFor k (keyed (ingressPaths rg)) \<and> paths \<noteq> []"
      unfolding set_rangeOrder appendAll_entry .
    then have e: "paths = filter (\<lambda>q. getPathMatchKey q = k) (ingressPaths rg)"
      and ne: "paths \<noteq> []"
      by (auto simp: entriesFor_keyed)
    from ne obtain p0 rest where p: "paths = p0 # rest" by (cases paths) auto
    with e have "List.find (\<lambda>q. getPathMatchKey q = k) (ingressPaths rg) = Some p0"
      by (intro find_hd_filter [where rest = rest]) simp
    with t have ty: "pathType (ip_path p0) \<noteq> None" by blast
    from e b have "\<forall>p\<in>set paths. hasTarget (backend (ip_path p))" by simp
    with p ty show "\<exists>res. buildRule paths errs = Inr res"
      using buildRule_total by blast
  qed
  from buildRules_total [OF this] obtain res where "buildRules ?parts ([], []) = Inr res"
    by blast
  then show ?thesis
    by (simp add: toHTTPRoute_groups [OF h] split: prod.splits)
qed

text \<open>
  C10. Where a rule of the group has no HTTP section, \<open>toHTTPRoute\<close> panics on a nil
  pointer; where the first path of a partition (the first path of the group, in the order
  of its rules, with a given path match key) has no path type, it panics likewise, in
  whatever order the partitions are visited. So when it returns, every rule has its HTTP
  section and every first path of a partition has its path type. These two and a third
  condition, that every backend has a service or a resource, make it return.
\<close>

theorem toHTTPRoute_nil_dereference:
  "((\<exists>ir\<in>set (rg_rules rg). http (ir_rule ir) = None) \<longrightarrow>
      toHTTPRoute po rg = Inl NilPointerDereference) \<and>
   (List.find (\<lambda>q. getPathMatchKey q = k) (ingressPaths rg) = Some ip \<and>
      pathType (ip_path ip) = None \<longrightarrow>
      toHTTPRoute po rg = Inl NilPointerDereference) \<and>
   (toHTTPRoute po rg = Inr res \<longrightarrow>
      (\<forall>ir\<in>set (rg_rules rg). http (ir_rule ir) \<noteq> None) \<and>
      (\<forall>k ip. List.find (\<lambda>q. getPathMatchKey q = k) (ingressPaths rg) = Some ip \<longrightarrow>
         pathType (ip_path ip) \<noteq> None)) \<and>
   ((\<forall>ir\<in>set (rg_rules rg). http (ir_rule ir) \<noteq> None) \<and>
    (\<forall>k ip. List.find (\<lambda>q. getPathMatchKey q = k) (ingressPaths rg) = Some ip \<longrightarrow>
         pathType (ip_path ip) \<noteq> None) \<and>
    (\<forall>ip\<in>set (ingressPaths rg). hasTarget (backend (ip_path ip))) \<longrightarrow>
      (\<exists>out. toHTTPRoute po rg = Inr out))"
proof (intro conjI impI)
  assume "\<exists>ir\<in>set (rg_rules rg). http (ir_rule ir) = None"
  then show "toHTTPRoute po rg = Inl NilPointerDereference"
    by (simp add: toHTTPRoute_def groupPaths_panic)
next
  assume "List.find (\<lambda>q. getPathMatchKey q = k) (ingressPaths rg) = Some ip \<and>
      pathType (ip_path ip) = None"
  then show "toHTTPRoute po rg = Inl NilPointerDereference"
    using toHTTPRoute_first_untyped by blast
next
  assume r: "toHTTPRoute po rg = Inr res"
  show "\<forall>ir\<in>set (rg_rules rg). http (ir_rule ir) \<noteq> None"
  proof (rule ccontr)
    assume "\<not> (\<forall>ir\<in>set (rg_rules rg). http (ir_rule ir) \<noteq> None)"
    then have "toHTTPRoute po rg = Inl NilPointerDereference"
      by (simp add: toHTTPRoute_def groupPaths_panic)
    with r show False by simp
  qed
next
  assume r: "toHTTPRoute po rg = Inr res"
  show "\<forall>k ip. List.find (\<lambda>q. getPathMatchKey q = k) (ingressPaths rg) = Some ip \<longrightarrow>
         pathType (ip_path ip) \<noteq> None"
  proof (intro allI impI notI)
    fix k ip
    assume "List.find (\<lambda>q. getPathMatchKey q = k) (ingressPaths rg) = Some ip"
      and "pathType (ip_path ip) = None"
    then have "toHTTPRoute po rg = Inl NilPointerDereference"
      by (rule toHTTPRoute_first_untyped)
    with r show False by simp
  qed
next
  assume "(\<forall>ir\<in>set (rg_rules rg). http (ir_rule ir) \<noteq> None) \<and>
    (\<forall>k ip. List.find (\<lambda>q. getPathMatchKey q = k) (ingressPaths rg) = Some ip \<longrightarrow>
         pathType (ip_path ip) \<noteq> None) \<and>
    (\<forall>ip\<in>set (ingressPaths rg). hasTarget (backend (ip_path ip)))"
  then show "\<exists>out. toHTTPRoute po rg = Inr out"
    using toHTTPRoute_total by blast
qed

lemmas group_example_defs = ruleGroupOf_def untypedPath_def prefixPath_def numberedService_def
  ingressPaths_def pathsOfRule_def getPathMatchKey_def canaryHeaderKey_def canaryOf_def
  hasTarget_def

theorem toHTTPRoute_nil_dereference_witness:
  "http (ir_rule (hd (rg_rules (ruleGroupOf None)))) = None \<and>
   toHTTPRoute 0 (ruleGroupOf None) = Inl NilPointerDereference \<and>
   List.find (\<lambda>q. getPathMatchKey q = ''///'') (ingressPaths (ruleGroupOf (Some [untypedPath])))
     = Some \<lparr>ip_path = untypedPath, ip_extra = None\<rparr> \<and>
   pathType untypedPath = None \<and>
   toHTTPRoute 0 (ruleGroupOf (Some [untypedPath])) = Inl NilPointerDereference \<and>
   toHTTPRoute 0 (ruleGroupOf (Some [prefixPath])) =
     Inr (\<lparr>routeName = ''example-com'', routeNamespace = ''default'', parentRefs = [''nginx''],
           hostnames = [''example.com''],
           routeRules = [prefixRule [weightedRef ''web'' None]]\<rparr>, []) \<and>
   list_all (\<lambda>ir. http (ir_rule ir) \<noteq> None) (rg_rules (ruleGroupOf (Some [prefixPath]))) \<and>
   list_all (\<lambda>ip. pathType (ip_path ip) \<noteq> None \<and> hasTarget (backend (ip_path ip)))
     (ingressPaths (ruleGroupOf (Some [prefixPath]))) \<and>
   (\<exists>out. toHTTPRoute 1 (ruleGroupOf (Some [prefixPath])) = Inr out)"
proof -
  let ?typed = "ruleGroupOf (Some [prefixPath])"
  have a: "\<exists>ir\<in>set (rg_rules (ruleGroupOf None)). http (ir_rule ir) = None"
    and a': "http (ir_rule (hd (rg_rules (ruleGroupOf None)))) = None"
    by (simp_all add: ruleGroupOf_def)
  have b: "List.find (\<lambda>q. getPathMatchKey q = ''///'')
      (ingressPaths (ruleGroupOf (Some [untypedPath])))
     = Some \<lparr>ip_path = untypedPath, ip_extra = None\<rparr> \<and> pathType untypedPath = None"
    by (simp add: group_example_defs)
  have c: "toHTTPRoute 0 ?typed =
     Inr (\<lparr>routeName = ''example-com'', routeNamespace = ''default'', parentRefs = [''nginx''],
           hostnames = [''example.com''],
           routeRules = [prefixRule [weightedRef ''web'' None]]\<rparr>, [])"
    by (simp add: run_defs ruleGroupOf_def prefixPath_def numberedService_def prefixRule_def
        weightedRef_def)
  from a toHTTPRoute_nil_dereference [of "ruleGroupOf None" 0]
  have 1: "toHTTPRoute 0 (ruleGroupOf None) = Inl NilPointerDereference" by blast
  from b toHTTPRoute_nil_dereference [of "ruleGroupOf (Some [untypedPath])" 0 "''///''"
      "\<lparr>ip_path = untypedPath, ip_extra = None\<rparr>"]
  have 2: "toHTTPRoute 0 (ruleGroupOf (Some [untypedPath])) = Inl NilPointerDereference"
    by simp
  from c toHTTPRoute_nil_dereference [of ?typed 0]
  have h: "(\<forall>ir\<in>set (rg_rules ?typed). http (ir_rule ir) \<noteq> None) \<and>
      (\<forall>k ip. List.find (\<lambda>q. getPathMatchKey q = k) (ingressPaths ?typed) = Some ip \<longrightarrow>
         pathType (ip_path ip) \<noteq> None)"
    by blast
  have t: "list_all (\<lambda>ip. pathType (ip_path ip) \<noteq> None \<and> hasTarget (backend (ip_path ip)))
     (ingressPaths ?typed)"
    by (simp add: group_example_defs)
  then have "\<forall>ip\<in>set (ingressPaths ?typed). hasTarget (backend (ip_path ip))"
    by (simp add: list_all_iff)
  with h toHTTPRoute_nil_dereference [of ?typed 1]
  have 3: "\<exists>out. toHTTPRoute 1 ?typed = Inr out" by blast
  from h have 4: "list_all (\<lambda>ir. http (ir_rule ir) \<noteq> None) (rg_rules ?typed)"
    by (simp add: list_all_iff)
  from a' b c 1 2 3 4 t show ?thesis by blast
qed

subsection \<open>The rule groups of a run\<close>

lemma groupOf_snoc_other:
  "sourceKey sr \<noteq> k \<Longrightarrow> groupOf k (srs @ [sr]) = groupOf k srs"
  by (simp add: groupOf_def)

lemma groupOf_snoc_same:
  "groupOf (sourceKey sr) (srs @ [sr]) =
     Some (let rg = (case groupOf (sourceKey sr) srs of
                       Some rg \<Rightarrow> rg
                     | None \<Rightarrow> \<lparr>rg_namespace = sr_namespace sr,
                                 rg_ingressClass = sr_ingressClass sr,
                                 rg_host = host (sr_rule sr), rg_tls = [], rg_rules = []\<rparr>)
           in rg\<lparr>rg_tls := rg_tls rg @ sr_tls sr, rg_rules := rg_rules rg @ [toIngressRule sr]\<rparr>)"
  by (cases "filter (\<lambda>s. sourceKey s = sourceKey sr) srs") (simp_all add: groupOf_def)

lemma addIngressRule_groupsOf:
  assumes "groupsOf a srs"
  shows "groupsOf (addIngressRule ns cls rule iSpec e a)
     (srs @ [\<lparr>sr_namespace = ns, sr_ingressClass = cls, sr_rule = rule, sr_tls = tls iSpec,
              sr_extra = e\<rparr>])"
proof -
  let ?sr = "\<lparr>sr_namespace = ns, sr_ingressClass = cls, sr_rule = rule, sr_tls = tls iSpec,
              sr_extra = e\<rparr>"
  have key: "sourceKey ?sr = ruleGroupKey ns cls (host rule)" by (simp add: sourceKey_def)
  from assms have d: "distinct (map fst (ruleGroups a))"
    and m: "\<And>k. map_of (ruleGroups a) k = groupOf k srs"
    by (simp_all add: groupsOf_def)
  have "distinct (map fst (ruleGroups (addIngressRule ns cls rule iSpec e a)))"
    using d by (simp add: addIngressRule_def Let_def distinct_update)
  moreover have "map_of (ruleGroups (addIngressRule ns cls rule iSpec e a)) k =
      groupOf k (srs @ [?sr])" for k
  proof (cases "k = sourceKey ?sr")
    case False
    then show ?thesis
      using groupOf_snoc_other [of ?sr k srs] m [of k]
      by (simp add: addIngressRule_def Let_def update_conv' key)
  next
    case True
    show ?thesis
      unfolding True groupOf_snoc_same
      by (simp add: addIngressRule_def Let_def update_conv' key [symmetric] m toIngressRule_def
          split: option.splits)
  qed
  ultimately show ?thesis by (simp add: groupsOf_def)
qed

lemma addIngressRules_groupsOf:
  "groupsOf a srs \<Longrightarrow>
   groupsOf (addIngressRules ns cls rs iSpec e a)
     (srs @ map (\<lambda>r. \<lparr>sr_namespace = ns, sr_ingressClass = cls, sr_rule = r,
                      sr_tls = tls iSpec, sr_extra = e\<rparr>) rs)"
proof (induction rs arbitrary: a srs)
  case Nil
  then show ?case by simp
next
  case (Cons r rs)
  from Cons.IH [OF addIngressRule_groupsOf [OF Cons.prems, of ns cls r iSpec e]]
  show ?case by simp
qed

lemma addIngress_groupsOf:
  assumes "groupsOf a srs"
  shows "groupsOf (addIngress ingress a) (srs @ sourceRulesOf ingress)"
proof -
  have "ruleGroups (addIngress ingress a) =
      ruleGroups (addIngressRules (namespace ingress) (resolveIngressClass ingress)
        (rules (spec ingress)) (spec ingress) (Some (getExtra ingress)) a)"
    by (simp add: addIngress_def Let_def split: option.splits)
  then show ?thesis
    using addIngressRules_groupsOf [OF assms, of "namespace ingress"
        "resolveIngressClass ingress" "rules (spec ingress)" "spec ingress"
        "Some (getExtra ingress)"]
    by (simp add: groupsOf_def sourceRulesOf_def)
qed

lemma addIngresses_groupsOf:
  "groupsOf a srs \<Longrightarrow> groupsOf (addIngresses ingresses a) (srs @ sourceRules ingresses)"
proof (induction ingresses arbitrary: a srs)
  case Nil
  then show ?case by (simp add: sourceRules_def)
next
  case (Cons i rest)
  from Cons.IH [OF addIngress_groupsOf [OF Cons.prems, of i]]
  show ?case by (simp add: sourceRules_def)
qed

lemma aggregate_groupsOf: "groupsOf (aggregate ingresses) (sourceRules ingresses)"
  using addIngresses_groupsOf [of emptyAggregator "[]" ingresses]
  by (simp add: aggregate_def groupsOf_def emptyAggregator_def groupOf_def)
lemma append_sep_inj:
  "c \<notin> set a \<Longrightarrow> c \<notin> set a' \<Longrightarrow> a @ c # b = a' @ c # b' \<Longrightarrow> a = a' \<and> b = b'"
proof (induction a arbitrary: a')
  case Nil
  then show ?case by (cases a') auto
next
  case (Cons x a)
  then show ?case by (cases a') auto
qed

lemma append_sep_inj_right:
  assumes "c \<notin> set b" and "c \<notin> set b'" and "a @ c # b = a' @ c # b'"
  shows "a = a' \<and> b = b'"
proof -
  from assms(3) have "rev (a @ c # b) = rev (a' @ c # b')" by simp
  then have "rev b @ c # rev a = rev b' @ c # rev a'" by simp
  moreover have "c \<notin> set (rev b)" and "c \<notin> set (rev b')" using assms by simp_all
  ultimately have "rev b = rev b' \<and> rev a = rev a'" by (intro append_sep_inj)
  then show ?thesis by simp
qed

lemma ruleGroupKey_inj:
  assumes "CHR ''/'' \<notin> set ns \<union> set ns'"
    and "CHR ''/'' \<notin> set cls \<union> set cls' \<or> CHR ''/'' \<notin> set h \<union> set h'"
  shows "ruleGroupKey ns cls h = ruleGroupKey ns' cls' h' \<longleftrightarrow> (ns, cls, h) = (ns', cls', h')"
proof
  assume e: "ruleGroupKey ns cls h = ruleGroupKey ns' cls' h'"
  then have "ns @ CHR ''/'' # (cls @ CHR ''/'' # h) = ns' @ CHR ''/'' # (cls' @ CHR ''/'' # h')"
    by (simp add: ruleGroupKey_def)
  with assms(1) have 1: "ns = ns' \<and> cls @ CHR ''/'' # h = cls' @ CHR ''/'' # h'"
    by (intro append_sep_inj) auto
  from assms(2) have "cls = cls' \<and> h = h'"
  proof
    assume "CHR ''/'' \<notin> set cls \<union> set cls'"
    with 1 show ?thesis by (intro append_sep_inj [where c = "CHR ''/''"]) auto
  next
    assume "CHR ''/'' \<notin> set h \<union> set h'"
    with 1 show ?thesis by (intro append_sep_inj_right [where c = "CHR ''/''"]) auto
  qed
  with 1 show "(ns, cls, h) = (ns', cls', h')" by simp
next
  assume "(ns, cls, h) = (ns', cls', h')"
  then show "ruleGroupKey ns cls h = ruleGroupKey ns' cls' h'" by simp
qed

lemma mset_concat_map_cong:
  assumes "mset xs = mset ys"
  shows "mset (concat (map f xs)) = mset (concat (map f ys))"
proof -
  have "mset (concat (map f zs)) = \<Sum>\<^sub># (image_mset (mset \<circ> f) (mset zs))" for zs
    by (simp add: mset_concat sum_mset_sum_list [symmetric])
  with assms show ?thesis by simp
qed

lemma ruleGroups_lookup:
  "map_of (ruleGroups (aggregate ings)) k = groupOf k (sourceRules ings)"
  using aggregate_groupsOf [of ings] by (simp add: groupsOf_def)

lemma ruleGroups_distinct: "distinct (map fst (ruleGroups (aggregate ings)))"
  using aggregate_groupsOf [of ings] by (simp add: groupsOf_def)

lemma ruleGroups_entry:
  "(k, rg) \<in> set (ruleGroups (aggregate ings)) \<longleftrightarrow> groupOf k (sourceRules ings) = Some rg"
proof -
  have "(k, rg) \<in> set (ruleGroups (aggregate ings)) \<longleftrightarrow>
      map_of (ruleGroups (aggregate ings)) k = Some rg"
    using ruleGroups_distinct [of ings] by simp
  then show ?thesis by (simp only: ruleGroups_lookup)
qed

lemma groupOf_Some:
  "groupOf k srs = Some rg \<Longrightarrow>
   rg_rules rg = map toIngressRule (filter (\<lambda>sr. sourceKey sr = k) srs) \<and>
   rg_tls rg = concat (map sr_tls (filter (\<lambda>sr. sourceKey sr = k) srs)) \<and>
   (\<exists>sr\<in>set srs. sourceKey sr = k \<and> groupTuple rg = sourceTuple sr)"
proof -
  assume g: "groupOf k srs = Some rg"
  then obtain sr rest where f: "filter (\<lambda>sr. sourceKey sr = k) srs = sr # rest"
    by (auto simp: groupOf_def split: list.splits)
  then have "sr \<in> set (filter (\<lambda>sr. sourceKey sr = k) srs)" by simp
  then have "sr \<in> set srs \<and> sourceKey sr = k" by simp
  with g f show ?thesis
    by (auto simp: groupOf_def groupTuple_def sourceTuple_def)
qed

lemma groupOf_None: "groupOf k srs = None \<longleftrightarrow> k \<notin> sourceKey ` set srs"
proof -
  have "groupOf k srs = None \<longleftrightarrow> filter (\<lambda>sr. sourceKey sr = k) srs = []"
    by (simp add: groupOf_def split: list.splits)
  also have "\<dots> \<longleftrightarrow> k \<notin> sourceKey ` set srs"
    by (auto simp: filter_empty_conv)
  finally show ?thesis .
qed

lemma ruleGroups_keys:
  "fst ` set (ruleGroups (aggregate ings)) = sourceKey ` set (sourceRules ings)"
proof -
  have "fst ` set (ruleGroups (aggregate ings)) = dom (map_of (ruleGroups (aggregate ings)))"
    by (simp add: dom_map_of_conv_image_fst)
  also have "\<dots> = {k. groupOf k (sourceRules ings) \<noteq> None}"
    by (auto simp: ruleGroups_lookup)
  also have "\<dots> = sourceKey ` set (sourceRules ings)"
    by (auto simp: groupOf_None)
  finally show ?thesis .
qed

text \<open>
  C4, as the code has it. The map holds one group for each key, the keys are those of the
  run's source rules, and the group stored under a key holds exactly the source rules with
  that key, in the order of their arrival: two source rules are in the same group if and
  only if their keys, the texts \<^verbatim>\<open>namespace/class/host\<close>, are equal. Keys of tuples whose
  namespaces have no \<^verbatim>\<open>/\<close>, and whose ingress classes or whose hosts have none, are equal
  only when the tuples are.
\<close>

theorem ruleGroups_by_key:
  "distinct (map fst (ruleGroups (aggregate ings))) \<and>
   fst ` set (ruleGroups (aggregate ings)) = sourceKey ` set (sourceRules ings) \<and>
   ((k, rg) \<in> set (ruleGroups (aggregate ings)) \<longrightarrow>
      rg_rules rg = map toIngressRule (filter (\<lambda>sr. sourceKey sr = k) (sourceRules ings))) \<and>
   (CHR ''/'' \<notin> set ns \<union> set ns' \<and>
    (CHR ''/'' \<notin> set cls \<union> set cls' \<or> CHR ''/'' \<notin> set h \<union> set h') \<longrightarrow>
      (ruleGroupKey ns cls h = ruleGroupKey ns' cls' h') = ((ns, cls, h) = (ns', cls', h')))"
proof (intro conjI impI)
  show "distinct (map fst (ruleGroups (aggregate ings)))"
    by (rule ruleGroups_distinct)
  show "fst ` set (ruleGroups (aggregate ings)) = sourceKey ` set (sourceRules ings)"
    by (rule ruleGroups_keys)
  show "rg_rules rg = map toIngressRule (filter (\<lambda>sr. sourceKey sr = k) (sourceRules ings))"
    if "(k, rg) \<in> set (ruleGroups (aggregate ings))"
    using that by (auto simp: ruleGroups_entry dest: groupOf_Some)
  show "(ruleGroupKey ns cls h = ruleGroupKey ns' cls' h') = ((ns, cls, h) = (ns', cls', h'))"
    if "CHR ''/'' \<notin> set ns \<union> set ns' \<and>
      (CHR ''/'' \<notin> set cls \<union> set cls' \<or> CHR ''/'' \<notin> set h \<union> set h')"
    using that by (intro ruleGroupKey_inj) blast+
qed

lemmas aggregate_defs = aggregate_def emptyAggregator_def
  addIngress_def addIngressRule_def resolveIngressClass_def getExtra_def annotation_def
  ruleGroupKey_def Let_def

lemmas grouping_example_defs = singlePathIngress_def numberedService_def slashClassIngress_def
  slashHostIngress_def hostAIngress_def hostBIngress_def

theorem ruleGroups_by_key_counterexample:
  "sourceTuple (hd (sourceRulesOf slashClassIngress)) = (''default'', ''a/b'', ''c'') \<and>
   sourceTuple (hd (sourceRulesOf slashHostIngress)) = (''default'', ''a'', ''b/c'') \<and>
   map (\<lambda>(k, rg). (k, map (\<lambda>ir. host (ir_rule ir)) (rg_rules rg)))
     (ruleGroups (aggregate [slashClassIngress, slashHostIngress])) =
     [(''default/a/b/c'', [''c'', ''b/c''])]"
  by (simp add: aggregate_defs grouping_example_defs sourceRulesOf_def sourceTuple_def)

theorem ruleGroups_by_key_witness:
  "(''default/nginx/a.example.com'', snd (hd (ruleGroups (aggregate [hostAIngress, hostBIngress]))))
     \<in> set (ruleGroups (aggregate [hostAIngress, hostBIngress])) \<and>
   map (\<lambda>ir. host (ir_rule ir))
     (rg_rules (snd (hd (ruleGroups (aggregate [hostAIngress, hostBIngress]))))) =
     [''a.example.com''] \<and>
   CHR ''/'' \<notin> set ''default'' \<union> set ''default'' \<and>
   CHR ''/'' \<notin> set ''a.example.com'' \<union> set ''b.example.com'' \<and>
   ruleGroupKey ''default'' ''nginx'' ''a.example.com'' \<noteq>
     ruleGroupKey ''default'' ''nginx'' ''b.example.com''"
proof -
  let ?ings = "[hostAIngress, hostBIngress]"
  let ?rg = "snd (hd (ruleGroups (aggregate ?ings)))"
  have m: "(''default/nginx/a.example.com'', ?rg) \<in> set (ruleGroups (aggregate ?ings))"
    by (simp add: aggregate_defs grouping_example_defs)
  have s: "CHR ''/'' \<notin> set ''default'' \<union> set ''default'' \<and>
      CHR ''/'' \<notin> set ''a.example.com'' \<union> set ''b.example.com''"
    by simp
  have f: "map (\<lambda>sr. host (sr_rule sr))
      (filter (\<lambda>sr. sourceKey sr = ''default/nginx/a.example.com'') (sourceRules ?ings)) =
      [''a.example.com'']"
    by (simp add: sourceRules_def sourceRulesOf_def sourceKey_def grouping_example_defs
        resolveIngressClass_def ruleGroupKey_def)
  note t = ruleGroups_by_key [of ?ings "''default/nginx/a.example.com''" ?rg "''default''"
      "''default''" "''nginx''" "''nginx''" "''a.example.com''" "''b.example.com''"]
  from t m have "rg_rules ?rg = map toIngressRule
      (filter (\<lambda>sr. sourceKey sr = ''default/nginx/a.example.com'') (sourceRules ?ings))"
    by blast
  then have 1: "map (\<lambda>ir. host (ir_rule ir)) (rg_rules ?rg) = [''a.example.com'']"
    using f by (simp add: toIngressRule_def comp_def)
  from t s have 2: "ruleGroupKey ''default'' ''nginx'' ''a.example.com'' \<noteq>
     ruleGroupKey ''default'' ''nginx'' ''b.example.com''"
    by simp
  from m s 1 2 show ?thesis by blast
qed

lemma collisionFree_iff:
  "collisionFree srs \<longleftrightarrow>
     (\<forall>a\<in>set srs. \<forall>b\<in>set srs. sourceKey a = sourceKey b \<longrightarrow> sourceTuple a = sourceTuple b)"
  unfolding collisionFree_def list_all_iff by blast

lemma separable_collisionFree:
  assumes "separable ings"
  shows "collisionFree (sourceRules ings)"
proof -
  have ns: "CHR ''/'' \<notin> set (sr_namespace sr)" if "sr \<in> set (sourceRules ings)" for sr
    using that assms by (auto simp: separable_def list_all_iff sourceRules_def sourceRulesOf_def)
  from assms have "(\<forall>sr\<in>set (sourceRules ings). CHR ''/'' \<notin> set (sr_ingressClass sr)) \<or>
      (\<forall>sr\<in>set (sourceRules ings). CHR ''/'' \<notin> set (host (sr_rule sr)))"
    by (auto simp: separable_def list_all_iff sourceRules_def sourceRulesOf_def)
  then have other: "CHR ''/'' \<notin> set (sr_ingressClass sr) \<union> set (sr_ingressClass sr') \<or>
      CHR ''/'' \<notin> set (host (sr_rule sr)) \<union> set (host (sr_rule sr'))"
    if "sr \<in> set (sourceRules ings)" "sr' \<in> set (sourceRules ings)" for sr sr'
    using that by auto
  have "sourceTuple sr = sourceTuple sr'"
    if "sr \<in> set (sourceRules ings)" "sr' \<in> set (sourceRules ings)"
      "sourceKey sr = sourceKey sr'" for sr sr'
  proof -
    from ns [OF that(1)] ns [OF that(2)]
    have "CHR ''/'' \<notin> set (sr_namespace sr) \<union> set (sr_namespace sr')" by simp
    from ruleGroupKey_inj [OF this other [OF that(1) that(2)]] that(3) show ?thesis
      by (simp add: sourceKey_def sourceTuple_def)
  qed
  then show ?thesis unfolding collisionFree_iff by blast
qed

text \<open>
  C5, as the code has it. A permutation of the source objects leaves the set of keys as it
  is and, under each key, the rules and the TLS entries of the group up to their order.
  The namespace, ingress class and host recorded in the group are those of the first rule
  to arrive; they do not depend on the order when no two distinct tuples of the run share
  a key, which holds when no namespace has a \<^verbatim>\<open>/\<close> and either no ingress class or no host
  has one.
\<close>

theorem grouping_order_independent:
  assumes "mset ings' = mset ings"
  shows "fst ` set (ruleGroups (aggregate ings')) = fst ` set (ruleGroups (aggregate ings)) \<and>
    ((k, rg) \<in> set (ruleGroups (aggregate ings)) \<and> (k, rg') \<in> set (ruleGroups (aggregate ings')) \<longrightarrow>
        mset (rg_rules rg') = mset (rg_rules rg) \<and> mset (rg_tls rg') = mset (rg_tls rg) \<and>
        (collisionFree (sourceRules ings) \<longrightarrow> groupTuple rg' = groupTuple rg)) \<and>
    (separable ings \<longrightarrow> collisionFree (sourceRules ings))"
proof (intro conjI impI)
  let ?S = "sourceRules ings" and ?S' = "sourceRules ings'"
  have S: "mset ?S' = mset ?S"
    unfolding sourceRules_def using assms by (rule mset_concat_map_cong)
  then have set: "set ?S' = set ?S" by (rule mset_eq_setD)
  show "fst ` set (ruleGroups (aggregate ings')) = fst ` set (ruleGroups (aggregate ings))"
    by (simp add: ruleGroups_keys set)
  {
    assume a: "(k, rg) \<in> set (ruleGroups (aggregate ings)) \<and>
      (k, rg') \<in> set (ruleGroups (aggregate ings'))"
    then have g: "groupOf k ?S = Some rg" and g': "groupOf k ?S' = Some rg'"
      by (simp_all add: ruleGroups_entry)
    note r = groupOf_Some [OF g] and r' = groupOf_Some [OF g']
    have f: "mset (filter (\<lambda>sr. sourceKey sr = k) ?S') = mset (filter (\<lambda>sr. sourceKey sr = k) ?S)"
      using S by simp
    from r r' f show "mset (rg_rules rg') = mset (rg_rules rg)"
      by (metis mset_map)
    from r r' show "mset (rg_tls rg') = mset (rg_tls rg)"
      using mset_concat_map_cong [OF f, of sr_tls] by simp
    {
      assume c: "collisionFree ?S"
      from r obtain sr where sr: "sr \<in> set ?S" "sourceKey sr = k" "groupTuple rg = sourceTuple sr"
        by blast
      from r' set obtain sr' where sr': "sr' \<in> set ?S" "sourceKey sr' = k"
        "groupTuple rg' = sourceTuple sr'"
        by blast
      from sr(2) sr'(2) have "sourceKey sr = sourceKey sr'" by simp
      with c sr(1) sr'(1) have "sourceTuple sr = sourceTuple sr'"
        unfolding collisionFree_iff by blast
      with sr(3) sr'(3) show "groupTuple rg' = groupTuple rg" by simp
    }
  }
  {
    assume "separable ings"
    then show "collisionFree (sourceRules ings)" by (rule separable_collisionFree)
  }
qed

theorem grouping_order_independent_counterexample:
  "mset [slashHostIngress, slashClassIngress] = mset [slashClassIngress, slashHostIngress] \<and>
   map (\<lambda>(k, rg). (k, groupTuple rg)) (ruleGroups (aggregate [slashClassIngress, slashHostIngress]))
     = [(''default/a/b/c'', (''default'', ''a/b'', ''c''))] \<and>
   map (\<lambda>(k, rg). (k, groupTuple rg)) (ruleGroups (aggregate [slashHostIngress, slashClassIngress]))
     = [(''default/a/b/c'', (''default'', ''a'', ''b/c''))]"
proof -
  have "mset [slashHostIngress, slashClassIngress] = mset [slashClassIngress, slashHostIngress]"
    by (simp add: add_mset_commute)
  moreover have "map (\<lambda>(k, rg). (k, groupTuple rg))
      (ruleGroups (aggregate [slashClassIngress, slashHostIngress]))
     = [(''default/a/b/c'', (''default'', ''a/b'', ''c''))]"
    by (simp add: aggregate_defs grouping_example_defs groupTuple_def)
  moreover have "map (\<lambda>(k, rg). (k, groupTuple rg))
      (ruleGroups (aggregate [slashHostIngress, slashClassIngress]))
     = [(''default/a/b/c'', (''default'', ''a'', ''b/c''))]"
    by (simp add: aggregate_defs grouping_example_defs groupTuple_def)
  ultimately show ?thesis by blast
qed

theorem grouping_order_independent_witness:
  "mset [hostBIngress, hostAIngress] = mset [hostAIngress, hostBIngress] \<and>
   (''default/nginx/a.example.com'', snd (hd (ruleGroups (aggregate [hostAIngress, hostBIngress]))))
     \<in> set (ruleGroups (aggregate [hostAIngress, hostBIngress])) \<and>
   (''default/nginx/a.example.com'',
      snd (hd (tl (ruleGroups (aggregate [hostBIngress, hostAIngress])))))
     \<in> set (ruleGroups (aggregate [hostBIngress, hostAIngress])) \<and>
   separable [hostAIngress, hostBIngress] \<and>
   collisionFree (sourceRules [hostAIngress, hostBIngress]) \<and>
   groupTuple (snd (hd (tl (ruleGroups (aggregate [hostBIngress, hostAIngress]))))) =
     groupTuple (snd (hd (ruleGroups (aggregate [hostAIngress, hostBIngress])))) \<and>
   mset (rg_rules (snd (hd (tl (ruleGroups (aggregate [hostBIngress, hostAIngress])))))) =
     mset (rg_rules (snd (hd (ruleGroups (aggregate [hostAIngress, hostBIngress])))))"
proof -
  let ?ings = "[hostAIngress, hostBIngress]" and ?ings' = "[hostBIngress, hostAIngress]"
  let ?k = "''default/nginx/a.example.com''"
  let ?rg = "snd (hd (ruleGroups (aggregate ?ings)))"
  let ?rg' = "snd (hd (tl (ruleGroups (aggregate ?ings'))))"
  have p: "mset ?ings' = mset ?ings" by (simp add: add_mset_commute)
  have m: "(?k, ?rg) \<in> set (ruleGroups (aggregate ?ings))"
    by (simp add: aggregate_defs grouping_example_defs)
  have m': "(?k, ?rg') \<in> set (ruleGroups (aggregate ?ings'))"
    by (simp add: aggregate_defs grouping_example_defs)
  have f: "separable ?ings"
    by (simp add: separable_def grouping_example_defs resolveIngressClass_def)
  note t = grouping_order_independent [OF p, of ?k ?rg ?rg']
  from t f have c: "collisionFree (sourceRules ?ings)" by blast
  from t m m' c have "groupTuple ?rg' = groupTuple ?rg \<and> mset (rg_rules ?rg') = mset (rg_rules ?rg)"
    by blast
  with p m m' f c show ?thesis by blast
qed

subsection \<open>Gateways and listeners\<close>

lemma appendListeners_concat: "appendListeners ls out = out @ concat (map expandListener ls)"
  by (induction ls arbitrary: out)
    (simp_all add: expandListener_def Let_def split: option.splits)

lemma splitOn_nonempty: "splitOn c s \<noteq> []"
  by (induction s) (auto split: list.splits)

lemma length_splitOn: "length (splitOn c s) = Suc (count_list s c)"
  by (induction s) (auto split: list.splits simp: splitOn_nonempty)

lemma splitOn_no_sep: "c \<notin> set s \<Longrightarrow> splitOn c s = [s]"
  by (induction s) auto

lemma splitOn_sep: "c \<notin> set a \<Longrightarrow> splitOn c (a @ c # b) = a # splitOn c b"
  by (induction a) (auto simp: splitOn_nonempty split: list.splits)

lemma splitOn_two: "splitOn c s = [a, b] \<Longrightarrow> s = a @ c # b \<and> c \<notin> set a \<and> c \<notin> set b"
proof (induction s arbitrary: a)
  case Nil
  then show ?case by simp
next
  case (Cons x s)
  show ?case
  proof (cases "x = c")
    case True
    with Cons.prems have a: "a = []" and s: "splitOn c s = [b]" by simp_all
    from s have "count_list s c = 0"
      using length_splitOn [of c s] by simp
    then have "c \<notin> set s" by (simp add: count_list_0_iff)
    with s have "s = b" by (simp add: splitOn_no_sep)
    with a True \<open>c \<notin> set s\<close> show ?thesis by simp
  next
    case False
    with Cons.prems obtain a' where a: "a = x # a'" and s: "splitOn c s = [a', b]"
      by (auto split: list.splits)
    from Cons.IH [OF s] a False show ?thesis by simp
  qed
qed

lemma validGatewayKey_join:
  "validGatewayKey (a @ CHR ''/'' # b) \<longleftrightarrow> CHR ''/'' \<notin> set a \<and> CHR ''/'' \<notin> set b"
  by (auto simp: validGatewayKey_def length_splitOn count_list_0_iff)

lemma update_new: "k \<notin> fst ` set al \<Longrightarrow> AList.update k v al = al @ [(k, v)]"
  by (induction al) auto

lemma map_of_new: "k \<notin> fst ` set al \<Longrightarrow> map_of al k = None"
  by (simp add: map_of_eq_None_iff)

lemma gatewaysLoop_result:
  "distinct (map fst es) \<Longrightarrow> fst ` set es \<inter> fst ` set gm = {} \<Longrightarrow>
   gatewaysLoop es (gm, errs) =
     (gm @ map (\<lambda>(k, ls). (k, gatewayFor k ls)) (filter (\<lambda>(k, ls). validGatewayKey k) es),
      errs @ map MalformedGatewayKey (filter (\<lambda>k. \<not> validGatewayKey k) (map fst es)))"
proof (induction es arbitrary: gm errs)
  case Nil
  then show ?case by simp
next
  case (Cons e es)
  obtain k ls where e: "e = (k, ls)" by (cases e) auto
  from Cons.prems e have d: "distinct (map fst es)" and k: "k \<notin> fst ` set es"
    and kg: "k \<notin> fst ` set gm" and disj: "fst ` set es \<inter> fst ` set gm = {}"
    by auto
  show ?case
  proof (cases "validGatewayKey k")
    case False
    then have "\<nexists>p0 p1. splitOn CHR ''/'' k = [p0, p1]"
      by (auto simp: validGatewayKey_def)
    then have step: "gatewaysLoop (e # es) (gm, errs) =
        gatewaysLoop es (gm, errs @ [MalformedGatewayKey k])"
      unfolding e by (auto split: list.splits)
    from Cons.IH [OF d disj] False show ?thesis
      unfolding step by (simp add: e)
  next
    case True
    then have "length (splitOn CHR ''/'' k) = Suc (Suc 0)"
      by (simp add: validGatewayKey_def)
    then obtain p0 p1 where p: "splitOn CHR ''/'' k = [p0, p1]"
      by (auto simp: length_Suc_conv)
    have g: "gatewayFor k ls = \<lparr>gwNamespace = p0, gwName = p1, gatewayClassName = p1,
        listeners = appendListeners ls []\<rparr>"
      by (simp add: gatewayFor_def p appendListeners_concat)
    have step: "gatewaysLoop (e # es) (gm, errs) =
        gatewaysLoop es (gm @ [(k, gatewayFor k ls)], errs)"
      unfolding e using p by (simp add: map_of_new [OF kg] update_new [OF kg] g)
    have disj': "fst ` set es \<inter> fst ` set (gm @ [(k, gatewayFor k ls)]) = {}"
      using disj k by auto
    from Cons.IH [OF d disj'] True show ?thesis
      unfolding step by (simp add: e)
  qed
qed
lemma ruleGroupsLoop_result:
  "ruleGroupsLoop po gs (m, rs) = Inr (m', rs') \<Longrightarrow>
   m' = appendAll (keyedListeners gs) m \<and>
   (\<exists>new. rs' = rs @ new \<and> map Some new = map (\<lambda>(k, rg). builtRoute (po k) rg) gs)"
proof (induction gs arbitrary: m rs)
  case Nil
  then show ?case by (simp add: keyedListeners_def)
next
  case (Cons g gs)
  obtain k rg where g: "g = (k, rg)" by (cases g) auto
  from Cons.prems g obtain r es where
    t: "toHTTPRoute (po k) rg = Inr (r, es)" and
    rest: "ruleGroupsLoop po gs (appendAt (gatewayKey rg) (groupListener rg) m, rs @ [r]) =
      Inr (m', rs')"
    by (auto simp: Let_def split: sum.splits)
  from Cons.IH [OF rest] obtain new where
    m': "m' = appendAll (keyedListeners gs) (appendAt (gatewayKey rg) (groupListener rg) m)"
    and new: "rs' = (rs @ [r]) @ new" "map Some new = map (\<lambda>(k, rg). builtRoute (po k) rg) gs"
    by blast
  have "rs' = rs @ (r # new) \<and>
      map Some (r # new) = map (\<lambda>(k, rg). builtRoute (po k) rg) (g # gs)"
    using new t g by (simp add: builtRoute_def)
  with m' g show ?case by (auto simp: keyedListeners_def)
qed

lemma mset_eq_distinct_map:
  "mset xs = mset ys \<Longrightarrow> distinct (map f xs) \<longleftrightarrow> distinct (map f ys)"
  by (metis mset_eq_imp_distinct_iff mset_map)

lemma distinct_map_rangeOrder: "distinct (map f (rangeOrder s xs)) \<longleftrightarrow> distinct (map f xs)"
  by (rule mset_eq_distinct_map) (rule mset_rangeOrder)

lemma toHTTPRoutesAndGateways_result:
  assumes "toHTTPRoutesAndGateways it a = Inr (routes, gws, errs)"
  shows "\<exists>routes1 errs1.
    ruleGroupsLoop (pathsOrder it) (rangeOrder (groupsOrder it) (ruleGroups a)) ([], []) =
      Inr (appendAll (keyedListeners (rangeOrder (groupsOrder it) (ruleGroups a))) [], routes1) \<and>
    defaultBackendsLoop (defaultBackends a) (routes1, []) = Inr (routes, errs1) \<and>
    gws = map snd (rangeOrder (gatewaysOrder it)
      (map (\<lambda>(k, ls). (k, gatewayFor k ls)) (filter (\<lambda>(k, ls). validGatewayKey k)
         (rangeOrder (listenersOrder it)
           (appendAll (keyedListeners (rangeOrder (groupsOrder it) (ruleGroups a))) []))))) \<and>
    errs = errs1 @ map MalformedGatewayKey (filter (\<lambda>k. \<not> validGatewayKey k)
      (map fst (rangeOrder (listenersOrder it)
         (appendAll (keyedListeners (rangeOrder (groupsOrder it) (ruleGroups a))) []))))"
proof -
  let ?gs = "rangeOrder (groupsOrder it) (ruleGroups a)"
  let ?lbng = "appendAll (keyedListeners ?gs) []"
  from assms obtain lbng routes1 where
    l: "ruleGroupsLoop (pathsOrder it) ?gs ([], []) = Inr (lbng, routes1)"
    by (auto simp: toHTTPRoutesAndGateways_def split: sum.splits prod.splits)
  from ruleGroupsLoop_result [OF l] have lbng: "lbng = ?lbng" by simp
  from assms l obtain errs1 where
    d: "defaultBackendsLoop (defaultBackends a) (routes1, []) = Inr (routes, errs1)"
    by (auto simp: toHTTPRoutesAndGateways_def split: sum.splits prod.splits)
  let ?es = "rangeOrder (listenersOrder it) ?lbng"
  have dist: "distinct (map fst ?es)"
    unfolding distinct_map_rangeOrder by (rule distinct_appendAll) simp
  have g: "gatewaysLoop ?es ([], errs1) =
     (map (\<lambda>(k, ls). (k, gatewayFor k ls)) (filter (\<lambda>(k, ls). validGatewayKey k) ?es),
      errs1 @ map MalformedGatewayKey (filter (\<lambda>k. \<not> validGatewayKey k) (map fst ?es)))"
    using gatewaysLoop_result [OF dist, of "[]" errs1] by simp
  from assms l d g lbng show ?thesis
    by (simp add: toHTTPRoutesAndGateways_def)
qed
lemma hostname_groupListener: "lHostname (groupListener rg) = listenerHostname rg"
  by (simp add: groupListener_def listenerHostname_def Let_def split: list.splits)

lemma tls_groupListener:
  "lTLS (groupListener rg) =
     (if rg_tls rg = [] then None else Some \<lparr>certificateRefs = map secretName (rg_tls rg)\<rparr>)"
  by (simp add: groupListener_def Let_def split: list.splits)

lemma expand_groupListener: "expandListener (groupListener rg) = listenersOfGroup rg"
  by (simp add: expandListener_def hostname_groupListener tls_groupListener listenersOfGroup_def
      httpListener_def httpsListener_def listenerNamePrefix_def HTTPProtocolType_def
      HTTPSProtocolType_def Let_def)

lemma entriesFor_keyedListeners:
  "entriesFor k (keyedListeners gs) =
     map groupListener (filter (\<lambda>rg. gatewayKey rg = k) (map snd gs))"
  by (induction gs) (auto simp: entriesFor_def keyedListeners_def)

lemma keys_keyedListeners: "fst ` set (keyedListeners gs) = gatewayKey ` snd ` set gs"
  by (force simp: keyedListeners_def)

lemma listenerMap_entry:
  "(k, ls) \<in> set (listenerMap it a) \<longleftrightarrow>
     ls = map groupListener (filter (\<lambda>rg. gatewayKey rg = k)
            (map snd (rangeOrder (groupsOrder it) (ruleGroups a)))) \<and> ls \<noteq> []"
  by (simp add: listenerMap_def set_rangeOrder appendAll_entry entriesFor_keyedListeners)

lemma listenerMap_keys:
  "fst ` set (listenerMap it a) = gatewayKey ` snd ` set (ruleGroups a)"
  by (simp add: listenerMap_def set_rangeOrder keys_appendAll keys_keyedListeners)

lemma listenerMap_distinct: "distinct (map fst (listenerMap it a))"
  unfolding listenerMap_def distinct_map_rangeOrder by (rule distinct_appendAll) simp

lemma gatewayKey_valid: "validGatewayKey (gatewayKey rg) \<longleftrightarrow> slashFree rg"
  by (simp add: gatewayKey_def validGatewayKey_join slashFree_def)

lemma keyPair_gatewayKey: "slashFree rg \<Longrightarrow> keyPair (gatewayKey rg) = groupPair rg"
  by (simp add: keyPair_def gatewayKey_def slashFree_def groupPair_def splitOn_sep splitOn_no_sep)

lemma keyPair_join:
  assumes "validGatewayKey k"
  shows "k = fst (keyPair k) @ CHR ''/'' # snd (keyPair k)"
proof -
  from assms have "length (splitOn CHR ''/'' k) = Suc (Suc 0)"
    by (simp add: validGatewayKey_def)
  then obtain p0 p1 where p: "splitOn CHR ''/'' k = [p0, p1]"
    by (auto simp: length_Suc_conv)
  from splitOn_two [OF p] p show ?thesis by (simp add: keyPair_def)
qed

lemma keyPair_inj: "validGatewayKey k \<Longrightarrow> validGatewayKey k' \<Longrightarrow> keyPair k = keyPair k' \<Longrightarrow> k = k'"
  using keyPair_join [of k] keyPair_join [of k'] by simp

lemma gatewayKey_eq_iff:
  assumes "validGatewayKey k"
  shows "gatewayKey rg = k \<longleftrightarrow> groupPair rg = keyPair k"
proof
  assume e: "gatewayKey rg = k"
  with assms have "slashFree rg" by (simp add: gatewayKey_valid [symmetric])
  from keyPair_gatewayKey [OF this] e show "groupPair rg = keyPair k" by simp
next
  assume "groupPair rg = keyPair k"
  then have "gatewayKey rg = fst (keyPair k) @ CHR ''/'' # snd (keyPair k)"
    by (simp add: gatewayKey_def groupPair_def prod_eq_iff)
  with keyPair_join [OF assms] show "gatewayKey rg = k" by simp
qed

lemma gatewayId_gatewayFor: "gatewayId (gatewayFor k ls) = keyPair k"
  by (simp add: gatewayId_def gatewayFor_def keyPair_def Let_def)
lemma gateways_of_run:
  assumes "toHTTPRoutesAndGateways it a = Inr (routes, gws, errs)"
  shows "mset gws = mset (map (\<lambda>(k, ls). gatewayFor k ls)
      (filter (\<lambda>(k, ls). validGatewayKey k) (listenerMap it a)))"
    and "set (filter (\<lambda>k. \<not> validGatewayKey k) (map fst (listenerMap it a))) \<subseteq>
      {k. MalformedGatewayKey k \<in> set errs}"
proof -
  from toHTTPRoutesAndGateways_result [OF assms] obtain errs1 where
    g: "gws = map snd (rangeOrder (gatewaysOrder it)
      (map (\<lambda>(k, ls). (k, gatewayFor k ls)) (filter (\<lambda>(k, ls). validGatewayKey k)
         (listenerMap it a))))"
    and e: "errs = errs1 @ map MalformedGatewayKey (filter (\<lambda>k. \<not> validGatewayKey k)
      (map fst (listenerMap it a)))"
    unfolding listenerMap_def by blast
  have "mset gws = mset (map snd (map (\<lambda>(k, ls). (k, gatewayFor k ls))
      (filter (\<lambda>(k, ls). validGatewayKey k) (listenerMap it a))))"
    unfolding g by (simp only: mset_map mset_rangeOrder)
  also have "map snd (map (\<lambda>(k, ls). (k, gatewayFor k ls))
      (filter (\<lambda>(k, ls). validGatewayKey k) (listenerMap it a))) =
      map (\<lambda>(k, ls). gatewayFor k ls) (filter (\<lambda>(k, ls). validGatewayKey k) (listenerMap it a))"
    by (simp add: case_prod_beta comp_def)
  finally show "mset gws = mset (map (\<lambda>(k, ls). gatewayFor k ls)
      (filter (\<lambda>(k, ls). validGatewayKey k) (listenerMap it a)))" .
  show "set (filter (\<lambda>k. \<not> validGatewayKey k) (map fst (listenerMap it a))) \<subseteq>
      {k. MalformedGatewayKey k \<in> set errs}"
    unfolding e by auto
qed

lemma gateways_distinct:
  assumes "toHTTPRoutesAndGateways it a = Inr (routes, gws, errs)"
  shows "distinct (map gatewayId gws)"
proof -
  let ?V = "filter (\<lambda>(k, ls). validGatewayKey k) (listenerMap it a)"
  have "mset (map gatewayId gws) = mset (map gatewayId (map (\<lambda>(k, ls). gatewayFor k ls) ?V))"
    using gateways_of_run(1) [OF assms] by (metis mset_map)
  also have "map gatewayId (map (\<lambda>(k, ls). gatewayFor k ls) ?V) = map keyPair (map fst ?V)"
    by (simp add: case_prod_beta comp_def gatewayId_gatewayFor)
  finally have m: "mset (map gatewayId gws) = mset (map keyPair (map fst ?V))" .
  have d: "distinct (map fst ?V)"
    using listenerMap_distinct [of it a] by (rule distinct_map_filter)
  have "inj_on keyPair (set (map fst ?V))"
    by (rule inj_onI) (auto intro: keyPair_inj)
  with d have "distinct (map keyPair (map fst ?V))"
    by (simp only: distinct_map)
  with m show ?thesis by (metis mset_eq_imp_distinct_iff)
qed

lemma gateways_pairs:
  assumes "toHTTPRoutesAndGateways it a = Inr (routes, gws, errs)"
  shows "set (map gatewayId gws) = groupPair ` {rg \<in> snd ` set (ruleGroups a). slashFree rg}"
proof -
  let ?V = "filter (\<lambda>(k, ls). validGatewayKey k) (listenerMap it a)"
  have "set gws = (\<lambda>(k, ls). gatewayFor k ls) ` set ?V"
    using gateways_of_run(1) [OF assms] by (metis mset_eq_setD set_map)
  then have "set (map gatewayId gws) = keyPair ` fst ` set ?V"
    by (force simp: gatewayId_gatewayFor image_iff)
  also have "fst ` set ?V = {k \<in> fst ` set (listenerMap it a). validGatewayKey k}"
    by force
  also have "\<dots> = gatewayKey ` {rg \<in> snd ` set (ruleGroups a). slashFree rg}"
    unfolding listenerMap_keys by (auto simp: gatewayKey_valid)
  also have "keyPair ` \<dots> =
      (\<lambda>rg. keyPair (gatewayKey rg)) ` {rg \<in> snd ` set (ruleGroups a). slashFree rg}"
    by (simp only: image_image)
  also have "\<dots> = groupPair ` {rg \<in> snd ` set (ruleGroups a). slashFree rg}"
    by (rule image_cong) (simp_all add: keyPair_gatewayKey)
  finally show ?thesis .
qed

lemma gateway_listeners:
  assumes "toHTTPRoutesAndGateways it a = Inr (routes, gws, errs)" and "g \<in> set gws"
  shows "gatewayClassName g = gwName g \<and>
    mset (listeners g) = mset (concat (map listenersOfGroup
      (filter (\<lambda>rg. groupPair rg = gatewayId g) (map snd (ruleGroups a)))))"
proof -
  let ?gs = "map snd (rangeOrder (groupsOrder it) (ruleGroups a))"
  have "set gws = (\<lambda>(k, ls). gatewayFor k ls) `
      set (filter (\<lambda>(k, ls). validGatewayKey k) (listenerMap it a))"
    using gateways_of_run(1) [OF assms(1)] by (metis mset_eq_setD set_map)
  with assms(2) obtain k ls where g: "g = gatewayFor k ls" and v: "validGatewayKey k"
    and m: "(k, ls) \<in> set (listenerMap it a)" by auto
  from m have ls: "ls = map groupListener (filter (\<lambda>rg. gatewayKey rg = k) ?gs)"
    by (simp add: listenerMap_entry)
  have id: "gatewayId g = keyPair k" by (simp add: g gatewayId_gatewayFor)
  have "listeners g = concat (map listenersOfGroup (filter (\<lambda>rg. gatewayKey rg = k) ?gs))"
    by (simp add: g gatewayFor_def ls comp_def expand_groupListener Let_def)
  also have "filter (\<lambda>rg. gatewayKey rg = k) ?gs = filter (\<lambda>rg. groupPair rg = gatewayId g) ?gs"
    by (simp add: gatewayKey_eq_iff [OF v] id)
  finally have l: "listeners g =
      concat (map listenersOfGroup (filter (\<lambda>rg. groupPair rg = gatewayId g) ?gs))" .
  have "mset ?gs = mset (map snd (ruleGroups a))"
    by (simp only: mset_map mset_rangeOrder)
  then have "mset (filter (\<lambda>rg. groupPair rg = gatewayId g) ?gs) =
      mset (filter (\<lambda>rg. groupPair rg = gatewayId g) (map snd (ruleGroups a)))"
    by (simp only: mset_filter)
  from mset_concat_map_cong [OF this, of listenersOfGroup] l
  have "mset (listeners g) = mset (concat (map listenersOfGroup
      (filter (\<lambda>rg. groupPair rg = gatewayId g) (map snd (ruleGroups a)))))"
    by simp
  moreover have "gatewayClassName g = gwName g" by (simp add: g gatewayFor_def Let_def)
  ultimately show ?thesis by simp
qed

lemma malformed_reported:
  assumes "toHTTPRoutesAndGateways it a = Inr (routes, gws, errs)"
    and "rg \<in> snd ` set (ruleGroups a)" and "\<not> slashFree rg"
  shows "MalformedGatewayKey (gatewayKey rg) \<in> set errs"
proof -
  from assms(2) have "gatewayKey rg \<in> fst ` set (listenerMap it a)"
    by (simp add: listenerMap_keys)
  moreover from assms(3) have "\<not> validGatewayKey (gatewayKey rg)"
    by (simp add: gatewayKey_valid)
  ultimately have "gatewayKey rg \<in>
      set (filter (\<lambda>k. \<not> validGatewayKey k) (map fst (listenerMap it a)))"
    by simp
  with gateways_of_run(2) [OF assms(1)] show ?thesis by blast
qed
lemma distinct_singleton_set:
  assumes "distinct xs" and "set xs = {x}"
  shows "xs = [x]"
proof (cases xs)
  case Nil
  with assms show ?thesis by simp
next
  case (Cons y ys)
  with assms have "y = x" and "set ys \<subseteq> {x}" and "x \<notin> set ys" by auto
  then have "ys = []" by (cases ys) auto
  with Cons \<open>y = x\<close> show ?thesis by simp
qed

lemma gateways_pairs_list:
  assumes "toHTTPRoutesAndGateways it a = Inr (routes, gws, errs)"
  shows "set (map gatewayId gws) = set (map groupPair (filter slashFree (map snd (ruleGroups a))))"
proof -
  have "{rg \<in> snd ` set (ruleGroups a). slashFree rg} =
      set (filter slashFree (map snd (ruleGroups a)))"
    by auto
  with gateways_pairs [OF assms] show ?thesis by (simp only: set_map)
qed

lemma two_hosts_one_gateway:
  assumes "toHTTPRoutesAndGateways it (aggregate [hostAIngress, hostBIngress]) =
    Inr (routes, gws, errs)"
  shows "\<exists>g. gws = [g] \<and> gwNamespace g = ''default'' \<and> gwName g = ''nginx'' \<and>
    gatewayClassName g = ''nginx'' \<and>
    mset (listeners g) = {#plainListener ''a-example-com-http'' ''a.example.com'',
                           plainListener ''b-example-com-http'' ''b.example.com''#}"
proof -
  let ?a = "aggregate [hostAIngress, hostBIngress]"
  have pairs: "map groupPair (filter slashFree (map snd (ruleGroups ?a))) =
      [(''default'', ''nginx''), (''default'', ''nginx'')]"
    by (simp add: aggregate_defs grouping_example_defs groupPair_def slashFree_def)
  from gateways_pairs_list [OF assms] pairs
  have "set (map gatewayId gws) = {(''default'', ''nginx'')}" by simp
  with gateways_distinct [OF assms] have "map gatewayId gws = [(''default'', ''nginx'')]"
    by (rule distinct_singleton_set)
  then obtain g where g: "gws = [g]" and id: "gatewayId g = (''default'', ''nginx'')"
    by auto
  from gateway_listeners [OF assms, of g] g
  have c: "gatewayClassName g = gwName g" and
    l: "mset (listeners g) = mset (concat (map listenersOfGroup
      (filter (\<lambda>rg. groupPair rg = gatewayId g) (map snd (ruleGroups ?a)))))"
    by simp_all
  have "concat (map listenersOfGroup
      (filter (\<lambda>rg. groupPair rg = (''default'', ''nginx'')) (map snd (ruleGroups ?a)))) =
      [plainListener ''a-example-com-http'' ''a.example.com'',
       plainListener ''b-example-com-http'' ''b.example.com'']"
    by (simp add: aggregate_defs grouping_example_defs groupPair_def listenersOfGroup_def
        httpListener_def listenerNamePrefix_def listenerHostname_def plainListener_def
        nameFromHost_def removeLeadingSpecial_def isAlnum_def less_eq_char_def)
  with l id have "mset (listeners g) = {#plainListener ''a-example-com-http'' ''a.example.com'',
                           plainListener ''b-example-com-http'' ''b.example.com''#}"
    by simp
  with g id c show ?thesis by (simp add: gatewayId_def)
qed

text \<open>
  C8, as the code has it. A run that returns produces no two gateways with the same
  namespace and name; the gateways are those of the (namespace, ingress class) pairs of
  the rule groups in which neither part has a \<^verbatim>\<open>/\<close>; name and class name of a gateway are
  the ingress class; and its listeners are, in some order, those of the rule groups of its
  pair: for each group the HTTP listener on port 80 and, exactly when the group has TLS
  entries, the HTTPS listener on port 443 with their certificate references. A group whose
  namespace or ingress class has a \<^verbatim>\<open>/\<close> gives no gateway but the error for its gateway
  key. Two ingresses of one namespace and class with two hosts give one gateway with the
  two hosts' listeners, in whatever order the maps are visited.
\<close>

theorem gateways_per_namespace_and_class:
  assumes "ingresses2GatewaysAndHTTPRoutes it ings = Inr (routes, gws, errs)"
  shows "distinct (map gatewayId gws) \<and>
     set (map gatewayId gws) =
       set (map groupPair (filter slashFree (map snd (ruleGroups (aggregate ings))))) \<and>
     (g \<in> set gws \<longrightarrow>
        gwName g = snd (gatewayId g) \<and> gatewayClassName g = snd (gatewayId g) \<and>
        mset (listeners g) = mset (concat (map listenersOfGroup
          (filter (\<lambda>rg. groupPair rg = gatewayId g) (map snd (ruleGroups (aggregate ings))))))) \<and>
     (rg \<in> snd ` set (ruleGroups (aggregate ings)) \<and> \<not> slashFree rg \<longrightarrow>
        MalformedGatewayKey (gatewayKey rg) \<in> set errs) \<and>
     (ings = [hostAIngress, hostBIngress] \<longrightarrow>
        (\<exists>g. gws = [g] \<and> gwNamespace g = ''default'' \<and> gwName g = ''nginx'' \<and>
           gatewayClassName g = ''nginx'' \<and>
           mset (listeners g) = {#plainListener ''a-example-com-http'' ''a.example.com'',
                                  plainListener ''b-example-com-http'' ''b.example.com''#}))"
proof -
  from assms have r: "toHTTPRoutesAndGateways it (aggregate ings) = Inr (routes, gws, errs)"
    by (simp add: ingresses2GatewaysAndHTTPRoutes_def)
  have "g \<in> set gws \<longrightarrow>
        gwName g = snd (gatewayId g) \<and> gatewayClassName g = snd (gatewayId g) \<and>
        mset (listeners g) = mset (concat (map listenersOfGroup
          (filter (\<lambda>rg. groupPair rg = gatewayId g) (map snd (ruleGroups (aggregate ings))))))"
    using gateway_listeners [OF r, of g] by (simp add: gatewayId_def)
  moreover have "rg \<in> snd ` set (ruleGroups (aggregate ings)) \<and> \<not> slashFree rg \<longrightarrow>
        MalformedGatewayKey (gatewayKey rg) \<in> set errs"
    using malformed_reported [OF r, of rg] by blast
  moreover have "ings = [hostAIngress, hostBIngress] \<longrightarrow>
        (\<exists>g. gws = [g] \<and> gwNamespace g = ''default'' \<and> gwName g = ''nginx'' \<and>
           gatewayClassName g = ''nginx'' \<and>
           mset (listeners g) = {#plainListener ''a-example-com-http'' ''a.example.com'',
                                  plainListener ''b-example-com-http'' ''b.example.com''#})"
    using two_hosts_one_gateway [of it routes gws errs] r by blast
  ultimately show ?thesis
    using gateways_distinct [OF r] gateways_pairs_list [OF r] by blast
qed

theorem gateways_per_namespace_and_class_counterexample:
  "map groupPair (map snd (ruleGroups (aggregate [slashClassIngress]))) = [(''default'', ''a/b'')] \<and>
   ingresses2GatewaysAndHTTPRoutes storedOrder [slashClassIngress] =
     Inr ([prefixRoute ''c'' ''a/b'' ''c''], [], [MalformedGatewayKey ''default/a/b''])"
  by (simp add: run_defs grouping_example_defs groupPair_def storedOrder_def prefixRoute_def
      prefixRule_def weightedRef_def)

theorem gateways_per_namespace_and_class_witness:
  "ingresses2GatewaysAndHTTPRoutes storedOrder [hostAIngress, hostBIngress] =
     Inr ([prefixRoute ''a-example-com'' ''nginx'' ''a.example.com'',
           prefixRoute ''b-example-com'' ''nginx'' ''b.example.com''],
          [nginxGateway [plainListener ''a-example-com-http'' ''a.example.com'',
                         plainListener ''b-example-com-http'' ''b.example.com'']],
          []) \<and>
   mset (concat (map listenersOfGroup
     (filter (\<lambda>rg. groupPair rg = (''default'', ''nginx''))
        (map snd (ruleGroups (aggregate [hostAIngress, hostBIngress])))))) =
     {#plainListener ''a-example-com-http'' ''a.example.com'',
       plainListener ''b-example-com-http'' ''b.example.com''#} \<and>
   snd (hd (ruleGroups (aggregate [slashClassIngress])))
     \<in> snd ` set (ruleGroups (aggregate [slashClassIngress])) \<and>
   \<not> slashFree (snd (hd (ruleGroups (aggregate [slashClassIngress])))) \<and>
   ingresses2GatewaysAndHTTPRoutes storedOrder [slashClassIngress] =
     Inr ([prefixRoute ''c'' ''a/b'' ''c''], [], [MalformedGatewayKey ''default/a/b'']) \<and>
   MalformedGatewayKey (gatewayKey (snd (hd (ruleGroups (aggregate [slashClassIngress])))))
     \<in> set [MalformedGatewayKey ''default/a/b'']"
proof -
  let ?la = "plainListener ''a-example-com-http'' ''a.example.com''"
  let ?lb = "plainListener ''b-example-com-http'' ''b.example.com''"
  let ?g = "nginxGateway [?la, ?lb]"
  let ?rs = "[prefixRoute ''a-example-com'' ''nginx'' ''a.example.com'',
              prefixRoute ''b-example-com'' ''nginx'' ''b.example.com'']"
  let ?rg = "snd (hd (ruleGroups (aggregate [slashClassIngress])))"
  have run: "ingresses2GatewaysAndHTTPRoutes storedOrder [hostAIngress, hostBIngress] =
      Inr (?rs, [?g], [])"
    by (simp add: run_defs grouping_example_defs storedOrder_def prefixRoute_def prefixRule_def
        weightedRef_def nginxGateway_def plainListener_def)
  have run': "ingresses2GatewaysAndHTTPRoutes storedOrder [slashClassIngress] =
      Inr ([prefixRoute ''c'' ''a/b'' ''c''], [], [MalformedGatewayKey ''default/a/b''])"
    by (simp add: run_defs grouping_example_defs storedOrder_def prefixRoute_def prefixRule_def
        weightedRef_def)
  have m: "?rg \<in> snd ` set (ruleGroups (aggregate [slashClassIngress])) \<and> \<not> slashFree ?rg"
    by (simp add: aggregate_defs grouping_example_defs slashFree_def)
  have id: "gatewayId ?g = (''default'', ''nginx'')"
    by (simp add: gatewayId_def nginxGateway_def)
  from gateways_per_namespace_and_class [OF run, of ?g] id
  have 1: "mset (listeners ?g) = mset (concat (map listenersOfGroup
     (filter (\<lambda>rg. groupPair rg = (''default'', ''nginx''))
        (map snd (ruleGroups (aggregate [hostAIngress, hostBIngress]))))))"
    by simp
  have "listeners ?g = [?la, ?lb]" by (simp add: nginxGateway_def)
  with 1 have 2: "mset (concat (map listenersOfGroup
     (filter (\<lambda>rg. groupPair rg = (''default'', ''nginx''))
        (map snd (ruleGroups (aggregate [hostAIngress, hostBIngress])))))) = {#?la, ?lb#}"
    by simp
  from gateways_per_namespace_and_class [OF run', of _ ?rg] m
  have 3: "MalformedGatewayKey (gatewayKey ?rg) \<in> set [MalformedGatewayKey ''default/a/b'']"
    by blast
  from run run' m 2 3 show ?thesis by blast
qed

subsection \<open>Independence of the order of the maps\<close>

lemma collectBackendRefs_errors:
  "collectBackendRefs ps (brs, n, t, es) =
     (case collectBackendRefs ps (brs, n, t, []) of
        Inl x \<Rightarrow> Inl x
      | Inr (brs', n', t', es') \<Rightarrow> Inr (brs', n', t', es @ es'))"
proof (induction ps arbitrary: brs n t es)
  case Nil
  then show ?case by simp
next
  case (Cons p ps)
  show ?case
  proof (cases "toBackendRef (backend (ip_path p))")
    case (Panic x)
    then show ?thesis by simp
  next
    case (Error err)
    have "collectBackendRefs (p # ps) (brs, n, t, es) = collectBackendRefs ps (brs, n, t, es @ [err])"
      using Error by simp
    also have "\<dots> = (case collectBackendRefs ps (brs, n, t, []) of
        Inl x \<Rightarrow> Inl x
      | Inr (brs', n', t', es') \<Rightarrow> Inr (brs', n', t', (es @ [err]) @ es'))"
      by (rule Cons.IH)
    finally have l: "collectBackendRefs (p # ps) (brs, n, t, es) =
      (case collectBackendRefs ps (brs, n, t, []) of
        Inl x \<Rightarrow> Inl x
      | Inr (brs', n', t', es') \<Rightarrow> Inr (brs', n', t', es @ err # es'))"
      by (simp split: sum.splits prod.splits)
    have "collectBackendRefs (p # ps) (brs, n, t, []) = collectBackendRefs ps (brs, n, t, [err])"
      using Error by simp
    also have "\<dots> = (case collectBackendRefs ps (brs, n, t, []) of
        Inl x \<Rightarrow> Inl x
      | Inr (brs', n', t', es') \<Rightarrow> Inr (brs', n', t', [err] @ es'))"
      by (rule Cons.IH)
    finally have r: "collectBackendRefs (p # ps) (brs, n, t, []) =
      (case collectBackendRefs ps (brs, n, t, []) of
        Inl x \<Rightarrow> Inl x
      | Inr (brs', n', t', es') \<Rightarrow> Inr (brs', n', t', err # es'))"
      by (simp split: sum.splits prod.splits)
    show ?thesis unfolding l r by (simp split: sum.splits)
  next
    case (Ok br)
    show ?thesis
    proof (cases "explicitWeight p")
      case None
      with Ok Cons.IH [of "brs @ [br]" n t es] show ?thesis by simp
    next
      case (Some w)
      with Ok Cons.IH [of "brs @ [br\<lparr>brWeight := Some w\<rparr>]" "n + 1" "t + w" es]
      show ?thesis by simp
    qed
  qed
qed

lemma buildRule_errors:
  "buildRule paths errs =
     (case buildRule paths [] of Inl x \<Rightarrow> Inl x | Inr (r, es) \<Rightarrow> Inr (r, errs @ es))"
proof (cases paths)
  case Nil
  then show ?thesis by (simp add: buildRule_def)
next
  case (Cons p0 rest)
  show ?thesis
  proof (cases "toHTTPRouteMatch p0")
    case (Panic x)
    with Cons show ?thesis by (simp add: buildRule_def)
  next
    case (Error err)
    with Cons show ?thesis by (simp add: buildRule_def)
  next
    case (Ok m)
    have "buildRule paths errs =
      (case collectBackendRefs paths ([], 0, 0, errs) of
         Inl x \<Rightarrow> Inl x
       | Inr (brs, n, t, es) \<Rightarrow>
           (case distributeWeights brs n t of
              Inl x \<Rightarrow> Inl x
            | Inr brs1 \<Rightarrow> Inr (Some \<lparr>matches = [m], backendRefs = brs1\<rparr>, es)))" for errs
      using Cons Ok by (simp add: buildRule_def del: collectBackendRefs.simps)
    then have "buildRule paths errs =
      (case collectBackendRefs paths ([], 0, 0, errs) of
         Inl x \<Rightarrow> Inl x
       | Inr (brs, n, t, es) \<Rightarrow>
           (case distributeWeights brs n t of
              Inl x \<Rightarrow> Inl x
            | Inr brs1 \<Rightarrow> Inr (Some \<lparr>matches = [m], backendRefs = brs1\<rparr>, es)))"
      and "buildRule paths [] =
      (case collectBackendRefs paths ([], 0, 0, []) of
         Inl x \<Rightarrow> Inl x
       | Inr (brs, n, t, es) \<Rightarrow>
           (case distributeWeights brs n t of
              Inl x \<Rightarrow> Inl x
            | Inr brs1 \<Rightarrow> Inr (Some \<lparr>matches = [m], backendRefs = brs1\<rparr>, es)))"
      by blast+
    then show ?thesis
      using collectBackendRefs_errors [of paths "[]" 0 0 errs]
      by (simp del: collectBackendRefs.simps split: sum.splits prod.splits)
  qed
qed

lemma buildRule_cases:
  "buildRule paths errs =
     (if rulePanics paths then Inl (case buildRule paths [] of Inl x \<Rightarrow> x)
      else Inr (builtRule paths, errs @ ruleErrors paths))"
  by (subst buildRule_errors)
    (simp add: rulePanics_def builtRule_def ruleErrors_def split: sum.splits prod.splits)
lemma rulePanics_iff: "rulePanics paths \<longleftrightarrow> (\<exists>x. buildRule paths errs = Inl x)"
  by (subst buildRule_errors) (simp add: rulePanics_def split: sum.splits prod.splits)

lemma buildRules_returns:
  "\<not> list_ex (\<lambda>(k, paths). rulePanics paths) parts \<Longrightarrow>
   buildRules parts (rs, es) =
     Inr (rs @ List.map_filter (\<lambda>(k, paths). builtRule paths) parts,
          es @ concat (map (\<lambda>(k, paths). ruleErrors paths) parts))"
proof (induction parts arbitrary: rs es)
  case Nil
  then show ?case by simp
next
  case (Cons part parts)
  obtain k paths where part: "part = (k, paths)" by (cases part) auto
  from Cons.prems part have np: "\<not> rulePanics paths"
    and rest: "\<not> list_ex (\<lambda>(k, paths). rulePanics paths) parts" by simp_all
  have b: "buildRule paths es = Inr (builtRule paths, es @ ruleErrors paths)"
    using np by (subst buildRule_cases) simp
  show ?case
  proof (cases "builtRule paths")
    case None
    with b Cons.IH [OF rest, of rs "es @ ruleErrors paths"] show ?thesis
      by (simp add: part)
  next
    case (Some r)
    with b Cons.IH [OF rest, of "rs @ [r]" "es @ ruleErrors paths"] show ?thesis
      by (simp add: part)
  qed
qed

lemma buildRules_panics_list:
  assumes "list_ex (\<lambda>(k, paths). rulePanics paths) parts"
  shows "\<exists>x. buildRules parts st = Inl x"
proof -
  from assms obtain k paths where m: "(k, paths) \<in> set parts" and p: "rulePanics paths"
    by (auto simp: list_ex_iff)
  from p have "\<forall>errs. \<exists>x. buildRule paths errs = Inl x"
    using rulePanics_iff by blast
  from buildRules_panics [OF m this] show ?thesis .
qed

lemma mset_map_filter_cong:
  "mset xs = mset ys \<Longrightarrow> mset (List.map_filter f xs) = mset (List.map_filter f ys)"
  by (simp add: map_filter_def)

lemma list_ex_mset_cong: "mset xs = mset ys \<Longrightarrow> list_ex P xs \<longleftrightarrow> list_ex P ys"
  by (metis list_ex_iff mset_eq_setD)

lemma toHTTPRoute_panics:
  assumes "groupPanics rg"
  shows "toHTTPRoute po rg = Inl NilPointerDereference"
proof (cases "list_ex (\<lambda>ir. http (ir_rule ir) = None) (rg_rules rg)")
  case True
  then show ?thesis by (simp add: toHTTPRoute_def groupPaths_panic list_ex_iff)
next
  case False
  then have h: "\<forall>ir\<in>set (rg_rules rg). http (ir_rule ir) \<noteq> None" by (simp add: list_ex_iff)
  let ?parts = "rangeOrder po (partitionsOf rg)"
  from assms False have "list_ex (\<lambda>(k, paths). rulePanics paths) (partitionsOf rg)"
    by (simp add: groupPanics_def)
  then have "list_ex (\<lambda>(k, paths). rulePanics paths) ?parts"
    using list_ex_mset_cong [OF mset_rangeOrder] by blast
  from buildRules_panics_list [OF this] obtain x where
    x: "buildRules ?parts ([], []) = Inl x" by blast
  from buildRules_panic_kind [OF x] partitions_nonempty
  have "x = NilPointerDereference" unfolding partitionsOf_def by blast
  with x show ?thesis by (simp add: toHTTPRoute_groups [OF h] partitionsOf_def)
qed

lemma toHTTPRoute_returns:
  assumes "\<not> groupPanics rg"
  shows "\<exists>r es. toHTTPRoute po rg = Inr (r, es) \<and> routeContent r = groupContent rg"
proof -
  from assms have h: "\<forall>ir\<in>set (rg_rules rg). http (ir_rule ir) \<noteq> None"
    and np: "\<not> list_ex (\<lambda>(k, paths). rulePanics paths) (partitionsOf rg)"
    by (simp_all add: groupPanics_def list_ex_iff)
  let ?parts = "rangeOrder po (partitionsOf rg)"
  from np have "\<not> list_ex (\<lambda>(k, paths). rulePanics paths) ?parts"
    using list_ex_mset_cong [OF mset_rangeOrder] by blast
  from buildRules_returns [OF this, of "[]" "[]"]
  have b: "buildRules ?parts ([], []) =
     Inr (List.map_filter (\<lambda>(k, paths). builtRule paths) ?parts,
          concat (map (\<lambda>(k, paths). ruleErrors paths) ?parts))"
    by simp
  have m: "mset (List.map_filter (\<lambda>(k, paths). builtRule paths) ?parts) =
      mset (List.map_filter (\<lambda>(k, paths). builtRule paths) (partitionsOf rg))"
    by (rule mset_map_filter_cong) (rule mset_rangeOrder)
  show ?thesis
    using b m by (simp add: toHTTPRoute_groups [OF h] partitionsOf_def [symmetric]
        routeContent_def groupContent_def)
qed
lemma ruleGroupsLoop_panics:
  "list_ex (\<lambda>(k, rg). groupPanics rg) gs \<Longrightarrow> ruleGroupsLoop po gs st = Inl NilPointerDereference"
proof (induction gs arbitrary: st)
  case Nil
  then show ?case by simp
next
  case (Cons g gs)
  obtain k rg where g: "g = (k, rg)" by (cases g) auto
  obtain m rs where st: "st = (m, rs)" by (cases st) auto
  show ?case
  proof (cases "groupPanics rg")
    case True
    from toHTTPRoute_panics [OF True, of "po k"] show ?thesis
      by (simp add: g st)
  next
    case False
    with Cons.prems g have rest: "list_ex (\<lambda>(k, rg). groupPanics rg) gs" by simp
    from toHTTPRoute_returns [OF False, of "po k"] obtain r es where
      "toHTTPRoute (po k) rg = Inr (r, es)" by blast
    with Cons.IH [OF rest] show ?thesis by (simp add: g st Let_def)
  qed
qed

lemma ruleGroupsLoop_returns:
  "\<not> list_ex (\<lambda>(k, rg). groupPanics rg) gs \<Longrightarrow>
   \<exists>new. ruleGroupsLoop po gs (m, rs) = Inr (appendAll (keyedListeners gs) m, rs @ new) \<and>
     map routeContent new = map (\<lambda>(k, rg). groupContent rg) gs"
proof (induction gs arbitrary: m rs)
  case Nil
  then show ?case by (simp add: keyedListeners_def)
next
  case (Cons g gs)
  obtain k rg where g: "g = (k, rg)" by (cases g) auto
  from Cons.prems g have np: "\<not> groupPanics rg"
    and rest: "\<not> list_ex (\<lambda>(k, rg). groupPanics rg) gs" by simp_all
  from toHTTPRoute_returns [OF np, of "po k"] obtain r es where
    t: "toHTTPRoute (po k) rg = Inr (r, es)" and c: "routeContent r = groupContent rg"
    by blast
  from Cons.IH [OF rest, of "appendAt (gatewayKey rg) (groupListener rg) m" "rs @ [r]"]
  obtain new where
    l: "ruleGroupsLoop po gs (appendAt (gatewayKey rg) (groupListener rg) m, rs @ [r]) =
      Inr (appendAll (keyedListeners gs) (appendAt (gatewayKey rg) (groupListener rg) m),
           (rs @ [r]) @ new)"
    and n: "map routeContent new = map (\<lambda>(k, rg). groupContent rg) gs"
    by blast
  have "ruleGroupsLoop po (g # gs) (m, rs) =
      Inr (appendAll (keyedListeners (g # gs)) m, rs @ (r # new))"
    using t l by (simp add: g Let_def keyedListeners_def)
  moreover have "map routeContent (r # new) = map (\<lambda>(k, rg). groupContent rg) (g # gs)"
    using c n by (simp add: g)
  ultimately show ?case by blast
qed

lemma defaultBackendsLoop_panic:
  "defaultBackendsLoop dbs st = Inl x \<Longrightarrow> x = NilPointerDereference"
proof (induction dbs st rule: defaultBackendsLoop.induct)
  case (1 st)
  then show ?case by simp
next
  case (2 db rest httpRoutes errors)
  then show ?case
    by (auto simp: Let_def split: result.splits dest: toBackendRef_panic)
qed

lemma defaultBackendsLoop_append:
  "defaultBackendsLoop dbs (rs, es) =
     (case defaultBackendsLoop dbs ([], []) of
        Inl x \<Rightarrow> Inl x
      | Inr (rs', es') \<Rightarrow> Inr (rs @ rs', es @ es'))"
proof (induction dbs arbitrary: rs es)
  case Nil
  then show ?case by simp
next
  case (Cons db dbs)
  let ?r = "\<lparr>routeName = db_name db @ ''-default-backend'', routeNamespace = db_namespace db,
             parentRefs = [db_ingressClass db], hostnames = [], routeRules = []\<rparr>"
  show ?case
  proof (cases "toBackendRef (db_backend db)")
    case (Panic x)
    then show ?thesis by (simp add: Let_def)
  next
    case (Error err)
    have l: "defaultBackendsLoop (db # dbs) (rs, es) =
        defaultBackendsLoop dbs (rs @ [?r], es @ [err])"
      and r: "defaultBackendsLoop (db # dbs) ([], []) = defaultBackendsLoop dbs ([?r], [err])"
      using Error by simp_all
    show ?thesis
      unfolding l r
      by (subst Cons.IH, subst (2) Cons.IH) (simp split: sum.splits prod.splits)
  next
    case (Ok br)
    let ?r' = "?r\<lparr>routeRules := [\<lparr>matches = [], backendRefs = [br]\<rparr>]\<rparr>"
    have l: "defaultBackendsLoop (db # dbs) (rs, es) = defaultBackendsLoop dbs (rs @ [?r'], es)"
      and r: "defaultBackendsLoop (db # dbs) ([], []) = defaultBackendsLoop dbs ([?r'], [])"
      using Ok by simp_all
    show ?thesis
      unfolding l r
      by (subst Cons.IH, subst (2) Cons.IH) (simp split: sum.splits prod.splits)
  qed
qed
lemma run_panics:
  assumes "list_ex groupPanics (map snd (ruleGroups a)) \<or>
    (\<exists>x. defaultBackendsLoop (defaultBackends a) ([], []) = Inl x)"
  shows "toHTTPRoutesAndGateways it a = Inl NilPointerDereference"
proof (cases "list_ex groupPanics (map snd (ruleGroups a))")
  case True
  then have "list_ex (\<lambda>(k, rg). groupPanics rg) (rangeOrder (groupsOrder it) (ruleGroups a))"
    by (auto simp: list_ex_iff set_rangeOrder)
  from ruleGroupsLoop_panics [OF this] show ?thesis
    by (simp add: toHTTPRoutesAndGateways_def)
next
  case False
  then have "\<not> list_ex (\<lambda>(k, rg). groupPanics rg) (rangeOrder (groupsOrder it) (ruleGroups a))"
    by (force simp: list_ex_iff set_rangeOrder)
  from ruleGroupsLoop_returns [OF this, of "pathsOrder it" "[]" "[]"] obtain new lbng where
    l: "ruleGroupsLoop (pathsOrder it) (rangeOrder (groupsOrder it) (ruleGroups a)) ([], []) =
      Inr (lbng, new)" by auto
  from assms False obtain x where x: "defaultBackendsLoop (defaultBackends a) ([], []) = Inl x"
    by blast
  then have "defaultBackendsLoop (defaultBackends a) (new, []) = Inl x"
    by (subst defaultBackendsLoop_append) simp
  moreover from defaultBackendsLoop_panic [OF x] have "x = NilPointerDereference" .
  ultimately show ?thesis using l by (simp add: toHTTPRoutesAndGateways_def)
qed

lemma listenerMap_content:
  assumes "(k, ls) \<in> set (listenerMap it a)"
  shows "gatewayContent (gatewayFor k ls) = keyContent a k"
proof -
  let ?gs = "map snd (rangeOrder (groupsOrder it) (ruleGroups a))"
  from assms have ls: "ls = map groupListener (filter (\<lambda>rg. gatewayKey rg = k) ?gs)"
    by (simp add: listenerMap_entry)
  have "mset ?gs = mset (map snd (ruleGroups a))"
    by (simp only: mset_map mset_rangeOrder)
  then have "mset (filter (\<lambda>rg. gatewayKey rg = k) ?gs) =
      mset (filter (\<lambda>rg. gatewayKey rg = k) (map snd (ruleGroups a)))"
    by (simp only: mset_filter)
  from mset_concat_map_cong [OF this, of listenersOfGroup]
  show ?thesis
    by (simp add: gatewayContent_def gatewayFor_def keyContent_def keyPair_def Let_def ls
        comp_def expand_groupListener)
qed

lemma listenerMap_key_mset:
  "mset (map fst (listenerMap it a)) = mset_set (gatewayKey ` snd ` set (ruleGroups a))"
proof -
  have "mset_set (set (map fst (listenerMap it a))) = mset (map fst (listenerMap it a))"
    using listenerMap_distinct by (rule mset_set_set)
  then show ?thesis by (simp add: listenerMap_keys)
qed

lemma run_returns:
  assumes np: "\<not> list_ex groupPanics (map snd (ruleGroups a))"
    and db: "defaultBackendsLoop (defaultBackends a) ([], []) = Inr (dr, de)"
  shows "\<exists>routes gws errs. toHTTPRoutesAndGateways it a = Inr (routes, gws, errs) \<and>
    mset (map routeContent routes) =
      mset (map groupContent (map snd (ruleGroups a))) + mset (map routeContent dr) \<and>
    mset (map gatewayContent gws) =
      image_mset (keyContent a)
        (filter_mset validGatewayKey (mset_set (gatewayKey ` snd ` set (ruleGroups a)))) \<and>
    mset errs = mset de +
      image_mset MalformedGatewayKey
        (filter_mset (\<lambda>k. \<not> validGatewayKey k) (mset_set (gatewayKey ` snd ` set (ruleGroups a))))"
proof -
  let ?gs = "rangeOrder (groupsOrder it) (ruleGroups a)"
  let ?V = "filter (\<lambda>(k, ls). validGatewayKey k) (listenerMap it a)"
  from np have "\<not> list_ex (\<lambda>(k, rg). groupPanics rg) ?gs"
    by (force simp: list_ex_iff set_rangeOrder)
  from ruleGroupsLoop_returns [OF this, of "pathsOrder it" "[]" "[]"] obtain new where
    l: "ruleGroupsLoop (pathsOrder it) ?gs ([], []) =
      Inr (appendAll (keyedListeners ?gs) [], new)"
    and n: "map routeContent new = map (\<lambda>(k, rg). groupContent rg) ?gs"
    by auto
  have d: "defaultBackendsLoop (defaultBackends a) (new, []) = Inr (new @ dr, de)"
    by (subst defaultBackendsLoop_append) (simp add: db)
  obtain gm errs where
    g: "gatewaysLoop (rangeOrder (listenersOrder it) (appendAll (keyedListeners ?gs) []))
      ([], de) = (gm, errs)"
    by (cases "gatewaysLoop (rangeOrder (listenersOrder it)
      (appendAll (keyedListeners ?gs) [])) ([], de)") auto
  let ?gws = "map snd (rangeOrder (gatewaysOrder it) gm)"
  have run: "toHTTPRoutesAndGateways it a = Inr (new @ dr, ?gws, errs)"
    using l d g by (simp add: toHTTPRoutesAndGateways_def)
  from toHTTPRoutesAndGateways_result [OF run] d l obtain
    e: "errs = de @ map MalformedGatewayKey (filter (\<lambda>k. \<not> validGatewayKey k)
      (map fst (listenerMap it a)))"
    unfolding listenerMap_def by auto
  have "map (\<lambda>(k, rg). groupContent rg) ?gs = map groupContent (map snd ?gs)"
    by (simp add: case_prod_beta comp_def)
  also have "mset \<dots> = mset (map groupContent (map snd (ruleGroups a)))"
    by (simp only: mset_map mset_rangeOrder)
  finally have r: "mset (map routeContent (new @ dr)) =
      mset (map groupContent (map snd (ruleGroups a))) + mset (map routeContent dr)"
    using n by simp
  have "mset ?gws = mset (map (\<lambda>(k, ls). gatewayFor k ls) ?V)"
    by (rule gateways_of_run(1) [OF run])
  then have "mset (map gatewayContent ?gws) =
      mset (map gatewayContent (map (\<lambda>(k, ls). gatewayFor k ls) ?V))"
    by (metis mset_map)
  also have "map gatewayContent (map (\<lambda>(k, ls). gatewayFor k ls) ?V) =
      map (keyContent a) (map fst ?V)"
    by (auto simp: listenerMap_content)
  also have "map fst ?V = filter validGatewayKey (map fst (listenerMap it a))"
    by (induction "listenerMap it a") (auto simp: filter_map comp_def case_prod_beta)
  also have "mset (map (keyContent a) (filter validGatewayKey (map fst (listenerMap it a)))) =
      image_mset (keyContent a)
        (filter_mset validGatewayKey (mset (map fst (listenerMap it a))))"
    by (simp only: mset_map mset_filter)
  finally have gw: "mset (map gatewayContent ?gws) =
      image_mset (keyContent a)
        (filter_mset validGatewayKey (mset_set (gatewayKey ` snd ` set (ruleGroups a))))"
    by (simp only: listenerMap_key_mset)
  have "mset errs = mset de + image_mset MalformedGatewayKey
        (filter_mset (\<lambda>k. \<not> validGatewayKey k) (mset (map fst (listenerMap it a))))"
    unfolding e by (simp only: mset_append mset_map mset_filter)
  then have er: "mset errs = mset de +
      image_mset MalformedGatewayKey
        (filter_mset (\<lambda>k. \<not> validGatewayKey k) (mset_set (gatewayKey ` snd ` set (ruleGroups a))))"
    by (simp only: listenerMap_key_mset)
  from run r gw er show ?thesis by blast
qed
text \<open>
  C2, as the code has it. The output is a function of the source objects and of the orders
  in which the loops over the four maps visit their entries, which Go leaves open. Two runs
  on the same objects with any two choices of these orders both panic, or both return, and
  then they return the same routes up to the order of the routes and of the rules in each
  route, the same gateways up to the order of the gateways and of the listeners in each
  gateway, and the same errors up to their order.
\<close>

theorem runs_agree_up_to_order:
  "(ingresses2GatewaysAndHTTPRoutes it ings = Inl x \<longrightarrow>
      ingresses2GatewaysAndHTTPRoutes it' ings = Inl x) \<and>
   (ingresses2GatewaysAndHTTPRoutes it ings = Inr (routes, gws, errs) \<longrightarrow>
      (\<exists>routes' gws' errs'.
         ingresses2GatewaysAndHTTPRoutes it' ings = Inr (routes', gws', errs') \<and>
         mset (map routeContent routes') = mset (map routeContent routes) \<and>
         mset (map gatewayContent gws') = mset (map gatewayContent gws) \<and>
         mset errs' = mset errs))"
proof -
  let ?a = "aggregate ings"
  show ?thesis
  proof (cases "list_ex groupPanics (map snd (ruleGroups ?a)) \<or>
      (\<exists>x. defaultBackendsLoop (defaultBackends ?a) ([], []) = Inl x)")
    case True
    from run_panics [OF True] show ?thesis
      by (simp add: ingresses2GatewaysAndHTTPRoutes_def)
  next
    case False
    then have np: "\<not> list_ex groupPanics (map snd (ruleGroups ?a))" by simp
    from False obtain dr de where
      db: "defaultBackendsLoop (defaultBackends ?a) ([], []) = Inr (dr, de)"
      by (cases "defaultBackendsLoop (defaultBackends ?a) ([], [])") auto
    from run_returns [OF np db, of it] obtain r1 g1 e1 where
      1: "toHTTPRoutesAndGateways it ?a = Inr (r1, g1, e1)"
      "mset (map routeContent r1) =
        mset (map groupContent (map snd (ruleGroups ?a))) + mset (map routeContent dr)"
      "mset (map gatewayContent g1) = image_mset (keyContent ?a)
        (filter_mset validGatewayKey (mset_set (gatewayKey ` snd ` set (ruleGroups ?a))))"
      "mset e1 = mset de + image_mset MalformedGatewayKey
        (filter_mset (\<lambda>k. \<not> validGatewayKey k) (mset_set (gatewayKey ` snd ` set (ruleGroups ?a))))"
      by blast
    from run_returns [OF np db, of it'] obtain r2 g2 e2 where
      2: "toHTTPRoutesAndGateways it' ?a = Inr (r2, g2, e2)"
      "mset (map routeContent r2) =
        mset (map groupContent (map snd (ruleGroups ?a))) + mset (map routeContent dr)"
      "mset (map gatewayContent g2) = image_mset (keyContent ?a)
        (filter_mset validGatewayKey (mset_set (gatewayKey ` snd ` set (ruleGroups ?a))))"
      "mset e2 = mset de + image_mset MalformedGatewayKey
        (filter_mset (\<lambda>k. \<not> validGatewayKey k) (mset_set (gatewayKey ` snd ` set (ruleGroups ?a))))"
      by blast
    from 1 2 show ?thesis
      by (auto simp: ingresses2GatewaysAndHTTPRoutes_def)
  qed
qed

theorem runs_agree_up_to_order_counterexample:
  "ingresses2GatewaysAndHTTPRoutes storedOrder [hostAIngress, hostBIngress] =
     Inr ([prefixRoute ''a-example-com'' ''nginx'' ''a.example.com'',
           prefixRoute ''b-example-com'' ''nginx'' ''b.example.com''],
          [nginxGateway [plainListener ''a-example-com-http'' ''a.example.com'',
                         plainListener ''b-example-com-http'' ''b.example.com'']],
          []) \<and>
   ingresses2GatewaysAndHTTPRoutes reversedGroups [hostAIngress, hostBIngress] =
     Inr ([prefixRoute ''b-example-com'' ''nginx'' ''b.example.com'',
           prefixRoute ''a-example-com'' ''nginx'' ''a.example.com''],
          [nginxGateway [plainListener ''b-example-com-http'' ''b.example.com'',
                         plainListener ''a-example-com-http'' ''a.example.com'']],
          []) \<and>
   prefixRoute ''a-example-com'' ''nginx'' ''a.example.com'' \<noteq>
     prefixRoute ''b-example-com'' ''nginx'' ''b.example.com''"
  by (simp add: run_defs grouping_example_defs storedOrder_def reversedGroups_def
      prefixRoute_def prefixRule_def weightedRef_def nginxGateway_def plainListener_def)

theorem runs_agree_up_to_order_witness:
  "ingresses2GatewaysAndHTTPRoutes storedOrder [noHTTPIngress] = Inl NilPointerDereference \<and>
   ingresses2GatewaysAndHTTPRoutes reversedGroups [noHTTPIngress] = Inl NilPointerDereference \<and>
   ingresses2GatewaysAndHTTPRoutes storedOrder [hostAIngress, hostBIngress] =
     Inr ([prefixRoute ''a-example-com'' ''nginx'' ''a.example.com'',
           prefixRoute ''b-example-com'' ''nginx'' ''b.example.com''],
          [nginxGateway [plainListener ''a-example-com-http'' ''a.example.com'',
                         plainListener ''b-example-com-http'' ''b.example.com'']],
          []) \<and>
   (\<exists>routes' gws' errs'.
      ingresses2GatewaysAndHTTPRoutes reversedGroups [hostAIngress, hostBIngress] =
        Inr (routes', gws', errs') \<and>
      mset (map routeContent routes') =
        mset (map routeContent [prefixRoute ''a-example-com'' ''nginx'' ''a.example.com'',
                                prefixRoute ''b-example-com'' ''nginx'' ''b.example.com'']) \<and>
      mset (map gatewayContent gws') =
        mset (map gatewayContent
          [nginxGateway [plainListener ''a-example-com-http'' ''a.example.com'',
                         plainListener ''b-example-com-http'' ''b.example.com'']]) \<and>
      mset errs' = mset [])"
proof -
  have p: "ingresses2GatewaysAndHTTPRoutes storedOrder [noHTTPIngress] = Inl NilPointerDereference"
    by (simp add: run_defs noHTTPIngress_def storedOrder_def)
  have r: "ingresses2GatewaysAndHTTPRoutes storedOrder [hostAIngress, hostBIngress] =
     Inr ([prefixRoute ''a-example-com'' ''nginx'' ''a.example.com'',
           prefixRoute ''b-example-com'' ''nginx'' ''b.example.com''],
          [nginxGateway [plainListener ''a-example-com-http'' ''a.example.com'',
                         plainListener ''b-example-com-http'' ''b.example.com'']],
          [])"
    by (simp add: run_defs grouping_example_defs storedOrder_def
      prefixRoute_def prefixRule_def weightedRef_def nginxGateway_def plainListener_def)
  from p runs_agree_up_to_order [of storedOrder "[noHTTPIngress]" NilPointerDereference
      reversedGroups]
  have 1: "ingresses2GatewaysAndHTTPRoutes reversedGroups [noHTTPIngress] =
      Inl NilPointerDereference"
    by blast
  from r runs_agree_up_to_order [of storedOrder "[hostAIngress, hostBIngress]" _ reversedGroups]
  have 2: "\<exists>routes' gws' errs'.
      ingresses2GatewaysAndHTTPRoutes reversedGroups [hostAIngress, hostBIngress] =
        Inr (routes', gws', errs') \<and>
      mset (map routeContent routes') =
        mset (map routeContent [prefixRoute ''a-example-com'' ''nginx'' ''a.example.com'',
                                prefixRoute ''b-example-com'' ''nginx'' ''b.example.com'']) \<and>
      mset (map gatewayContent gws') =
        mset (map gatewayContent
          [nginxGateway [plainListener ''a-example-com-http'' ''a.example.com'',
                         plainListener ''b-example-com-http'' ''b.example.com'']]) \<and>
      mset errs' = mset []"
    by blast
  from p r 1 2 show ?thesis by blast
qed

end
